theory Spec2Isabelle
  imports Complex_Main "HOL-Library.Word" "HOL-Library.AList"
begin

unbundle bit_operations_syntax

section \<open>JavaScript values and the object store\<close>

text \<open>
  dam.js is dynamically typed and hands object references to its client, so the values the
  library sees are modelled as a small universe of JavaScript values over an explicit store.
  Numbers are exact rationals (the IEEE rounding of doubles is not modelled); the results a
  double can take beyond them are kept apart in \<open>jsnum\<close>.  Objects are association lists of
  their own properties.
\<close>

type_synonym addr = nat

datatype jsval =
    JUndefined
  | JNull
  | JBool bool
  | JNum rat
  | JStr string
  | JRef addr
  | JFunction string

datatype jsobj = JObject "(string \<times> jsval) list" | JArray "jsval list"

type_synonym heap = "addr \<Rightarrow> jsobj option"

datatype jstype = TUndefined | TObject | TBoolean | TNumber | TString | TFunction

fun typeof :: "jsval \<Rightarrow> jstype" where
  "typeof JUndefined = TUndefined"
| "typeof JNull = TObject"
| "typeof (JBool b) = TBoolean"
| "typeof (JNum n) = TNumber"
| "typeof (JStr s) = TString"
| "typeof (JRef a) = TObject"
| "typeof (JFunction f) = TFunction"

fun truthy :: "jsval \<Rightarrow> bool" where
  "truthy JUndefined = False"
| "truthy JNull = False"
| "truthy (JBool b) = b"
| "truthy (JNum n) = (n \<noteq> 0)"
| "truthy (JStr s) = (s \<noteq> [])"
| "truthy (JRef a) = True"
| "truthy (JFunction f) = True"

text \<open>\<open>o.p\<close> for a value that is not \<open>null\<close> or \<open>undefined\<close>: an own property of an
  object, \<open>undefined\<close> otherwise (the properties read this way, \<open>name\<close>, \<open>files\<close>,
  \<open>fileSizes\<close> and \<open>loaded\<close>, are not inherited by any built-in).\<close>

definition getprop :: "heap \<Rightarrow> jsval \<Rightarrow> string \<Rightarrow> jsval" where
  "getprop h v p =
     (case v of
        JRef a \<Rightarrow>
          (case h a of
             Some (JObject ps) \<Rightarrow> (case map_of ps p of Some x \<Rightarrow> x | None \<Rightarrow> JUndefined)
           | _ \<Rightarrow> JUndefined)
      | _ \<Rightarrow> JUndefined)"

text \<open>The elements of an array value, \<open>None\<close> when the value is not an array.\<close>

definition arr_of :: "heap \<Rightarrow> jsval \<Rightarrow> jsval list option" where
  "arr_of h v =
     (case v of
        JRef a \<Rightarrow> (case h a of Some (JArray xs) \<Rightarrow> Some xs | _ \<Rightarrow> None)
      | _ \<Rightarrow> None)"

definition isArray :: "heap \<Rightarrow> jsval \<Rightarrow> bool" where
  "isArray h v = (arr_of h v \<noteq> None)"

datatype error = Thrown string | TypeError

section \<open>tiny-sha1 and the local file name\<close>

text \<open>
  The digest bundled with dam.js, on 32-bit words; its one-letter helpers \<open>L\<close>, \<open>P\<close>,
  \<open>A\<close>, \<open>M\<close> carry the prefix \<open>SHA1_\<close> here.  JavaScript arrays with holes are lists that
  grow with zeros: every read of a hole goes through a bit operator, which takes
  \<open>undefined\<close> as 0.  A \<open>string\<close> holds code units below 256, so the mask \<open>& 255\<close> of
  \<open>charCodeAt\<close> is the identity on it.
\<close>

type_synonym u32 = "32 word"

definition jsget :: "u32 list \<Rightarrow> nat \<Rightarrow> u32" where
  "jsget a i = (if i < length a then a ! i else 0)"

definition jsset :: "u32 list \<Rightarrow> nat \<Rightarrow> u32 \<Rightarrow> u32 list" where
  "jsset a i x = (if i < length a then a[i := x] else a @ replicate (i - length a) 0 @ [x])"

definition jsor :: "u32 list \<Rightarrow> nat \<Rightarrow> u32 \<Rightarrow> u32 list" where
  "jsor a i x = jsset a i (jsget a i OR x)"

definition SHA1_L :: "u32 \<Rightarrow> nat \<Rightarrow> u32" where
  "SHA1_L a b = push_bit b a OR drop_bit (32 - b) a"

definition SHA1_P :: "u32 \<Rightarrow> u32 \<Rightarrow> u32 \<Rightarrow> u32" where
  "SHA1_P a b c = a XOR b XOR c"

definition SHA1_A :: "u32 \<Rightarrow> u32 \<Rightarrow> u32" where
  "SHA1_A a b =
     (let c = (b AND 0xFFFF) + (a AND 0xFFFF);
          d = drop_bit 16 b + drop_bit 16 a + drop_bit 16 c
      in push_bit 16 (d AND 0xFFFF) OR (c AND 0xFFFF))"

text \<open>The anonymous five-argument adder of the round.\<close>

definition add5 :: "u32 \<Rightarrow> u32 \<Rightarrow> u32 \<Rightarrow> u32 \<Rightarrow> u32 \<Rightarrow> u32" where
  "add5 a b c d e =
     (let f = (e AND 0xFFFF) + (a AND 0xFFFF) + (b AND 0xFFFF) + (c AND 0xFFFF) + (d AND 0xFFFF);
          g = drop_bit 16 e + drop_bit 16 a + drop_bit 16 b + drop_bit 16 c + drop_bit 16 d
                + drop_bit 16 f
      in push_bit 16 (g AND 0xFFFF) OR (f AND 0xFFFF))"

definition SHA1_M :: "u32 list" where
  "SHA1_M = replicate 20 0x5a827999 @ replicate 20 0x6ed9eba1
     @ replicate 20 0x8f1bbcdc @ replicate 20 0xca62c1d6"

definition str2words :: "string \<Rightarrow> u32 list" where
  "str2words t =
     fold (\<lambda>k a. jsor a (k div 4)
                    (push_bit (24 - (8 * k) mod 32) (of_nat (of_char (t ! k) mod 256))))
          [0 ..< length t] []"

definition SHA1_F :: "nat \<Rightarrow> u32 \<Rightarrow> u32 \<Rightarrow> u32 \<Rightarrow> u32" where
  "SHA1_F j d e f =
     (if j < 20 then (d AND e) XOR (NOT d AND f)
      else if j < 40 then SHA1_P d e f
      else if j < 60 then (d AND e) XOR (d AND f) XOR (e AND f)
      else SHA1_P d e f)"

type_synonym regs = "u32 \<times> u32 \<times> u32 \<times> u32 \<times> u32"

definition round_j :: "u32 list \<Rightarrow> nat \<Rightarrow> nat \<Rightarrow> u32 list \<times> regs \<Rightarrow> u32 list \<times> regs" where
  "round_j a i j s =
     (case s of (Os, (c, d, e, f, g)) \<Rightarrow>
        let Oj = (if j < 16 then jsget a (j + i)
                  else SHA1_L (jsget Os (j - 3) XOR jsget Os (j - 8)
                          XOR jsget Os (j - 14) XOR jsget Os (j - 16)) 1);
            k = add5 (SHA1_F j d e f) g (SHA1_M ! j) Oj (SHA1_L c 5)
        in (Os @ [Oj], (k, c, SHA1_L d 30, e, f)))"

definition block :: "u32 list \<Rightarrow> regs \<Rightarrow> nat \<Rightarrow> regs" where
  "block a r i =
     (case r of (v, w, x, y, z) \<Rightarrow>
        case snd (fold (round_j a i) [0 ..< 80] ([], (v, w, x, y, z))) of
          (c, d, e, f, g) \<Rightarrow> (SHA1_A v c, SHA1_A w d, SHA1_A x e, SHA1_A y f, SHA1_A z g))"

text \<open>\<open>h\<close> is read before the padding is written, so the loop \<open>for (i=0; i<h; i+=16)\<close> runs
  over the blocks of the unpadded message.\<close>

definition digest :: "u32 list \<Rightarrow> nat \<Rightarrow> u32 list" where
  "digest a0 b =
     (let h = length a0;
          a1 = jsor a0 (b div 32) (push_bit (24 - b mod 32) 0x80);
          a2 = jsset a1 (((b + 65) div 512) * 16 + 15) (of_nat b)
      in case fold (\<lambda>n r. block a2 r (16 * n)) [0 ..< (h + 15) div 16]
                (0x67452301, 0xefcdab89, 0x98badcfe, 0x10325476, 0xc3d2e1f0) of
           (v, w, x, y, z) \<Rightarrow> [v, w, x, y, z])"

definition hexdigit :: "u32 \<Rightarrow> char" where
  "hexdigit n = ''0123456789abcdef'' ! unat (n AND 0xF)"

definition tohex :: "u32 list \<Rightarrow> string" where
  "tohex a =
     concat (map (\<lambda>i. let e = signed_drop_bit ((3 - i mod 4) * 8) (a ! (i div 4))
                       in [hexdigit (signed_drop_bit 4 e), hexdigit e])
                 [0 ..< length a * 4])"

definition SHA1 :: "string \<Rightarrow> string" where
  "SHA1 s = tohex (digest (str2words s) (length s * 8))"

text \<open>\<open>String.prototype.lastIndexOf\<close> for a single character: the greatest index holding it,
  \<open>-1\<close> when there is none.\<close>

definition lastIndexOf :: "string \<Rightarrow> char \<Rightarrow> int" where
  "lastIndexOf s c =
     (if c \<in> set s then int (length s) - 1 - int (length (takeWhile (\<lambda>x. x \<noteq> c) (rev s)))
      else - 1)"

definition localFileName :: "string \<Rightarrow> string" where
  "localFileName uri =
     (let l = lastIndexOf uri (CHR ''.'')
      in SHA1 uri @ (if l < 1 \<or> l = int (length uri) - 1 then [] else drop (nat l) uri))"

section \<open>Numbers of the progress computation\<close>

text \<open>
  \<open>totalSize\<close>, \<open>totalDoneSize\<close> and the \<open>done\<close> fraction are JavaScript numbers.  A
  finite one is an exact rational here; \<open>NonFinite\<close> stands for \<open>NaN\<close> and the infinities
  that a division by zero gives; \<open>Unmodelled\<close> stands for what \<open>+=\<close> makes of a size hint that
  is not a number (addBundle does not check the elements of \<open>fileSizes\<close>), which this model
  does not compute.
\<close>

datatype jsnum = Fin rat | NonFinite | Unmodelled

fun to_num :: "jsval \<Rightarrow> jsnum" where
  "to_num (JNum r) = Fin r"
| "to_num v = Unmodelled"

fun jadd :: "jsnum \<Rightarrow> jsnum \<Rightarrow> jsnum" where
  "jadd (Fin a) (Fin b) = Fin (a + b)"
| "jadd Unmodelled y = Unmodelled"
| "jadd x Unmodelled = Unmodelled"
| "jadd x y = NonFinite"

fun jmul :: "jsnum \<Rightarrow> jsnum \<Rightarrow> jsnum" where
  "jmul (Fin a) (Fin b) = Fin (a * b)"
| "jmul Unmodelled y = Unmodelled"
| "jmul x Unmodelled = Unmodelled"
| "jmul x y = NonFinite"

text \<open>Division by a finite number; by zero it gives \<open>NaN\<close> or an infinity.\<close>

fun jdiv :: "jsnum \<Rightarrow> jsnum \<Rightarrow> jsnum" where
  "jdiv (Fin a) (Fin b) = (if b = 0 then NonFinite else Fin (a / b))"
| "jdiv NonFinite (Fin b) = NonFinite"
| "jdiv x y = Unmodelled"

section \<open>Events, tasks and the manager\<close>

datatype event_kind =
    GLOBAL_EVENT_BUSY
  | GLOBAL_EVENT_NOTBUSY
  | BUNDLE_EVENT_LOADING
  | BUNDLE_EVENT_PROGRESS
  | BUNDLE_EVENT_LOADED
  | BUNDLE_EVENT_ERROR

text \<open>Collaborator values.  The numeric values of Cordova's \<open>FileTransferError\<close> codes are
  declared outside this repository; the code only compares with \<open>ABORT_ERR\<close> and builds
  \<open>CONNECTION_ERR\<close>, so the codes are kept symbolic.\<close>

datatype ft_code = CONNECTION_ERR | ABORT_ERR | OTHER_ERR nat

record transfer_error =
  code :: ft_code
  http_status :: "rat option"

record fileEntry =
  fullPath :: string
  toURL :: string

record progress_event =
  lengthComputable :: bool
  loaded :: rat
  total :: rat

text \<open>The error strings of \<open>_downloadBundle\<close>, kept as their parts: \<open>"canceled"\<close>,
  \<open>"FileTransferError: " + JSON.stringify(err)\<close> and
  \<open>"Unable to create file for download FileError code: " + err.code\<close>.\<close>

datatype errmsg = Canceled | FileTransferError transfer_error | UnableToCreateFile int

text \<open>An event object \<open>{event, name, done, error}\<close>; an absent field is \<open>None\<close>.\<close>

record event =
  event :: event_kind
  name :: "string option"
  done_fraction :: "jsnum option"
  error_text :: "errmsg option"

datatype task_type = TASK_TYPE_LOAD | TASK_TYPE_REMOVE

text \<open>A Task object.  \<open>extra\<close> is the removed bundle of a Remove task (\<open>None\<close> is the fresh \<open>{}\<close>
  of a Load task, which is never read); \<open>ft\<close> tells whether \<open>task.ft\<close> is set.\<close>

record task =
  bundleName :: string
  type :: task_type
  extra :: "addr option"
  failed :: bool
  error :: "errmsg option"
  canceled :: bool
  retry :: bool
  ft :: bool

text \<open>Requests sent to the collaborators, in the order they are issued.\<close>

datatype request =
    GetFile string bool
  | RemoveFile string
  | Download string string
  | AbortTransfer

text \<open>The closure variables of one run of \<open>_downloadBundle\<close>.  The running task is
  \<open>manager.tasks[i]\<close>: while a task runs, \<open>doingTasks\<close> keeps every other \<open>_doTasks\<close> out, so
  the list is only appended to and the index held by \<open>onComplete\<close> keeps denoting the task.\<close>

record dl =
  dl_task :: nat
  dl_bundle :: addr
  totalSize :: jsnum
  totalDoneSize :: jsnum

text \<open>The callback the single active task is waiting for, with the variables its closure
  holds: the file index and, read from \<open>bundle.files[index]\<close> when the request was made, the
  remote file.\<close>

datatype cont =
    DlProbe dl nat string
  | DlCreate dl nat string
  | DlTransfer dl nat string fileEntry
  | RmGetFile nat addr nat string
  | RmRemove nat addr nat

datatype pfield = PVal jsval | PArr "jsval list"

record manager =
  heap :: heap
  hnext :: addr
  bundles :: "(string \<times> addr) list"
  localURLs :: "(string \<times> string) list"
  tasks :: "task list"
  doingTasks :: bool
  eventQueue :: "event list"
  eventTimer :: bool
  storage :: "(string \<times> (string \<times> pfield) list) list option"
  running :: "cont option"
  requests :: "request list"
  delivered :: "event list"

text \<open>\<open>new DAM(baseDir)\<close>, after an \<open>init\<close> that found nothing stored.\<close>

definition DAM :: manager where
  "DAM = \<lparr> heap = Map.empty, hnext = 0, bundles = [], localURLs = [], tasks = [],
            doingTasks = False, eventQueue = [], eventTimer = False, storage = None,
            running = None, requests = [], delivered = [] \<rparr>"

definition alloc :: "jsobj \<Rightarrow> manager \<Rightarrow> addr \<times> manager" where
  "alloc ob m = (hnext m, m\<lparr>heap := (heap m)(hnext m \<mapsto> ob), hnext := Suc (hnext m)\<rparr>)"

definition setprop :: "addr \<Rightarrow> string \<Rightarrow> jsval \<Rightarrow> manager \<Rightarrow> manager" where
  "setprop a p v m =
     (case heap m a of
        Some (JObject ps) \<Rightarrow> m\<lparr>heap := (heap m)(a \<mapsto> JObject (AList.update p v ps))\<rparr>
      | _ \<Rightarrow> m)"

text \<open>
  \<open>this.bundles\<close> and \<open>this.localURLs\<close> are plain objects (\<open>{}\<close>) used as dictionaries, and
  the code tests membership with \<open>this.bundles.hasOwnProperty(name)\<close>.  An association list of
  the own properties stands for such an object as long as no key interferes with that: an own
  property \<open>hasOwnProperty\<close> shadows the method, so that every later membership test raises a
  \<open>TypeError\<close>, and an assignment to the key \<open>__proto__\<close> sets the prototype and adds no
  member.  These two keys are \<open>reserved\<close>: the definitions below are the program on
  dictionaries that never receive them, and say nothing of the program on others.
\<close>

definition reserved :: "string list" where
  "reserved = [''hasOwnProperty'', ''__proto__'']"

definition hasOwnProperty :: "(string \<times> 'a) list \<Rightarrow> string \<Rightarrow> bool" where
  "hasOwnProperty ob k = (map_of ob k \<noteq> None)"

text \<open>\<open>JSON.stringify(this.bundles)\<close>: each bundle with its fields, arrays written out.\<close>

definition serialize_obj :: "heap \<Rightarrow> addr \<Rightarrow> (string \<times> pfield) list" where
  "serialize_obj h a =
     (case h a of
        Some (JObject ps) \<Rightarrow>
          map (\<lambda>(k, v). (k, case arr_of h v of Some xs \<Rightarrow> PArr xs | None \<Rightarrow> PVal v)) ps
      | _ \<Rightarrow> [])"

definition persist :: "manager \<Rightarrow> manager" where
  "persist m = m\<lparr>storage := Some (map (\<lambda>(k, a). (k, serialize_obj (heap m) a)) (bundles m))\<rparr>"

subsection \<open>Event notification\<close>

definition sendEvent :: "event \<Rightarrow> manager \<Rightarrow> manager" where
  "sendEvent e m = m\<lparr>eventQueue := eventQueue m @ [e], eventTimer := True\<rparr>"

text \<open>The timer set by \<open>_sendEvent\<close> fires: every queued event goes to every listener.\<close>

definition flushEvents :: "manager \<Rightarrow> manager" where
  "flushEvents m =
     (if eventTimer m
      then m\<lparr>delivered := delivered m @ eventQueue m, eventTimer := False, eventQueue := []\<rparr>
      else m)"

definition purgeEvents :: "string \<Rightarrow> manager \<Rightarrow> manager" where
  "purgeEvents bName m = m\<lparr>eventQueue := filter (\<lambda>e. name e \<noteq> Some bName) (eventQueue m)\<rparr>"

definition global_event :: "event_kind \<Rightarrow> event" where
  "global_event k = \<lparr>event = k, name = None, done_fraction = None, error_text = None\<rparr>"

definition bundle_event :: "event_kind \<Rightarrow> string \<Rightarrow> event" where
  "bundle_event k n = \<lparr>event = k, name = Some n, done_fraction = None, error_text = None\<rparr>"

definition progress_ev :: "string \<Rightarrow> jsnum \<Rightarrow> event" where
  "progress_ev n d =
     \<lparr>event = BUNDLE_EVENT_PROGRESS, name = Some n, done_fraction = Some d, error_text = None\<rparr>"

definition error_ev :: "string \<Rightarrow> errmsg \<Rightarrow> event" where
  "error_ev n e =
     \<lparr>event = BUNDLE_EVENT_ERROR, name = Some n, done_fraction = None, error_text = Some e\<rparr>"

subsection \<open>The local URL map\<close>

definition addLocalURL :: "string \<Rightarrow> fileEntry \<Rightarrow> manager \<Rightarrow> manager" where
  "addLocalURL remoteURL entry m =
     (if \<not> hasOwnProperty (localURLs m) remoteURL
      then m\<lparr>localURLs := AList.update remoteURL (toURL entry) (localURLs m)\<rparr>
      else m)"

definition removeLocalURL :: "string \<Rightarrow> manager \<Rightarrow> manager" where
  "removeLocalURL remoteURL m =
     (if hasOwnProperty (localURLs m) remoteURL
      then m\<lparr>localURLs := AList.delete remoteURL (localURLs m)\<rparr>
      else m)"

text \<open>The members every object inherits from \<open>Object.prototype\<close> (ECMAScript 5.1, 15.2.4).
  \<open>this.localURLs\<close> is created as \<open>{}\<close>, and \<open>localURL\<close> reads it with a plain
  \<open>this.localURLs[remoteFile]\<close>, which follows the prototype chain.  Engines add members of
  their own to the seven of the standard (\<open>__proto__\<close>, \<open>__defineGetter__\<close> and the like);
  the list is a lower bound: for an unmapped name outside it \<open>localURL\<close> below returns
  \<open>undefined\<close>, which is the program's result on every name the engine does not add.\<close>

definition Object_prototype :: "string list" where
  "Object_prototype = [''constructor'', ''toString'', ''toLocaleString'', ''valueOf'',
     ''hasOwnProperty'', ''isPrototypeOf'', ''propertyIsEnumerable'']"

definition localURL :: "manager \<Rightarrow> string \<Rightarrow> jsval" where
  "localURL m remoteFile =
     (case map_of (localURLs m) remoteFile of
        Some u \<Rightarrow> JStr u
      | None \<Rightarrow> if remoteFile \<in> set Object_prototype then JFunction remoteFile else JUndefined)"

subsection \<open>Bundle records as the orchestrators read them\<close>

text \<open>
  The fields of a bundle object that the task bodies read: \<open>name\<close>, the elements of \<open>files\<close>
  and, when \<open>fileSizes\<close> is truthy, its elements.  The view exists for an object of the shape
  \<open>addBundle\<close> stores (a string name, an array of strings, \<open>fileSizes\<close> absent or an array);
  on any other object the body is \<open>Stuck\<close>: the JavaScript there (a \<open>TypeError\<close>, or
  arithmetic on \<open>undefined\<close>) is not modelled.
\<close>

record bview =
  b_name :: string
  b_files :: "string list"
  b_sizes :: "jsval list option"

fun strs_of :: "jsval list \<Rightarrow> string list option" where
  "strs_of [] = Some []"
| "strs_of (JStr s # vs) = map_option (Cons s) (strs_of vs)"
| "strs_of (v # vs) = None"

definition bundle_view :: "heap \<Rightarrow> addr \<Rightarrow> bview option" where
  "bundle_view h a =
     (case getprop h (JRef a) ''name'' of
        JStr n \<Rightarrow>
          (case arr_of h (getprop h (JRef a) ''files'') of
             None \<Rightarrow> None
           | Some fs \<Rightarrow>
               (case strs_of fs of
                  None \<Rightarrow> None
                | Some ss \<Rightarrow>
                    let sz = getprop h (JRef a) ''fileSizes''
                    in if truthy sz
                       then (case arr_of h sz of
                               None \<Rightarrow> None
                             | Some xs \<Rightarrow> Some \<lparr>b_name = n, b_files = ss, b_sizes = Some xs\<rparr>)
                       else Some \<lparr>b_name = n, b_files = ss, b_sizes = None\<rparr>))
      | _ \<Rightarrow> None)"

text \<open>\<open>bundle.fileSizes ? bundle.fileSizes[index] : 1\<close>; an index past the end reads
  \<open>undefined\<close>, which adds up to \<open>NaN\<close>.\<close>

definition weight :: "bview \<Rightarrow> nat \<Rightarrow> jsnum" where
  "weight v index =
     (case b_sizes v of
        Some szs \<Rightarrow> if index < length szs then to_num (szs ! index) else NonFinite
      | None \<Rightarrow> Fin 1)"

definition total_weight :: "bview \<Rightarrow> jsnum" where
  "total_weight v =
     (case b_sizes v of
        Some szs \<Rightarrow> fold (\<lambda>x s. jadd s (to_num x)) szs (Fin 0)
      | None \<Rightarrow> Fin (of_nat (length (b_files v))))"

subsection \<open>Tasks\<close>

definition Task :: "string \<Rightarrow> task_type \<Rightarrow> addr option \<Rightarrow> task" where
  "Task bName ty ex =
     \<lparr> bundleName = bName, type = ty, extra = ex, failed = False, error = None,
       canceled = False, retry = False, ft = False \<rparr>"

definition upd_task :: "nat \<Rightarrow> (task \<Rightarrow> task) \<Rightarrow> manager \<Rightarrow> manager" where
  "upd_task i f m = m\<lparr>tasks := (tasks m)[i := f (tasks m ! i)]\<rparr>"

text \<open>\<open>Task.prototype.abort\<close> on \<open>manager.tasks[i]\<close>.\<close>

definition abort :: "nat \<Rightarrow> manager \<Rightarrow> manager" where
  "abort i m =
     (let t = tasks m ! i;
          m1 = upd_task i (\<lambda>t. t\<lparr>canceled := True\<rparr>) m;
          m2 = (if ft t then m1\<lparr>requests := requests m1 @ [AbortTransfer]\<rparr> else m1)
      in purgeEvents (bundleName t) m2)"

definition cancelTask :: "string \<Rightarrow> task_type \<Rightarrow> manager \<Rightarrow> manager" where
  "cancelTask bName ty m =
     fold (\<lambda>i m. if bundleName (tasks m ! i) = bName \<and> type (tasks m ! i) = ty
                  then abort i m else m)
          [0 ..< length (tasks m)] m"

datatype status = Completed | Waiting | Stuck

subsection \<open>The download orchestrator\<close>

text \<open>\<open>error(errorStr, retry)\<close> of \<open>_downloadBundle\<close>; \<open>Completed\<close> is its \<open>callback()\<close>.\<close>

definition downloadBundle_error :: "dl \<Rightarrow> errmsg \<Rightarrow> bool \<Rightarrow> manager \<Rightarrow> status \<times> manager" where
  "downloadBundle_error d errorStr rt m =
     (let was_canceled = canceled (tasks m ! dl_task d);
          m1 = upd_task (dl_task d)
                 (\<lambda>t. t\<lparr>failed := True, error := Some errorStr, retry := rt\<rparr>) m
      in if \<not> rt \<and> \<not> was_canceled
         then (case bundle_view (heap m1) (dl_bundle d) of
                 None \<Rightarrow> (Stuck, m1)
               | Some v \<Rightarrow> (Completed, sendEvent (error_ev (b_name v) errorStr) m1))
         else (Completed, m1))"

text \<open>\<open>loop(index)\<close> of \<open>_downloadBundle\<close>, up to the \<open>getFile\<close> it issues.\<close>

definition downloadBundle_loop :: "dl \<Rightarrow> nat \<Rightarrow> manager \<Rightarrow> status \<times> manager" where
  "downloadBundle_loop d index m =
     (if canceled (tasks m ! dl_task d) then downloadBundle_error d Canceled False m
      else case bundle_view (heap m) (dl_bundle d) of
             None \<Rightarrow> (Stuck, m)
           | Some v \<Rightarrow>
               if index = length (b_files v)
               then (Completed,
                     sendEvent (bundle_event BUNDLE_EVENT_LOADED (b_name v))
                       (persist (setprop (dl_bundle d) ''loaded'' (JBool True) m)))
               else if length (b_files v) < index then (Stuck, m)
               else (Waiting,
                     m\<lparr>requests := requests m
                          @ [GetFile (localFileName (b_files v ! index)) False],
                       running := Some (DlProbe d index (b_files v ! index))\<rparr>))"

definition downloadBundle :: "nat \<Rightarrow> manager \<Rightarrow> status \<times> manager" where
  "downloadBundle i m =
     (case map_of (bundles m) (bundleName (tasks m ! i)) of
        None \<Rightarrow> (Stuck, m)
      | Some b \<Rightarrow>
          (case bundle_view (heap m) b of
             None \<Rightarrow> (Stuck, m)
           | Some v \<Rightarrow>
               downloadBundle_loop
                 \<lparr>dl_task = i, dl_bundle = b, totalSize = total_weight v, totalDoneSize = Fin 0\<rparr>
                 0
                 (sendEvent (bundle_event BUNDLE_EVENT_LOADING (b_name v)) m)))"

text \<open>A file is done (found by the probe, or downloaded): the guarded
  \<open>totalDoneSize += ...; _sendEvent(progress)\<close> followed by \<open>loop(index + 1)\<close>.\<close>

definition file_done :: "dl \<Rightarrow> nat \<Rightarrow> manager \<Rightarrow> status \<times> manager" where
  "file_done d index m =
     (if \<not> canceled (tasks m ! dl_task d)
      then (case bundle_view (heap m) (dl_bundle d) of
              None \<Rightarrow> (Stuck, m)
            | Some v \<Rightarrow>
                let d' = d\<lparr>totalDoneSize := jadd (totalDoneSize d) (weight v index)\<rparr>
                in downloadBundle_loop d' (Suc index)
                     (sendEvent (progress_ev (b_name v) (jdiv (totalDoneSize d') (totalSize d')))
                        m))
      else downloadBundle_loop d (Suc index) m)"

text \<open>The probe fails: \<open>getFile(localName, {create: true})\<close>.\<close>

definition probe_missing :: "dl \<Rightarrow> nat \<Rightarrow> string \<Rightarrow> manager \<Rightarrow> status \<times> manager" where
  "probe_missing d index remoteFile m =
     (Waiting,
      m\<lparr>requests := requests m @ [GetFile (localFileName remoteFile) True],
        running := Some (DlCreate d index remoteFile)\<rparr>)"

text \<open>The file is created: \<open>task.ft = new FileTransferWrapper\<close> and \<open>task.ft.download\<close>.\<close>

definition start_transfer ::
  "dl \<Rightarrow> nat \<Rightarrow> string \<Rightarrow> fileEntry \<Rightarrow> manager \<Rightarrow> status \<times> manager" where
  "start_transfer d index remoteFile entry m =
     (let m1 = upd_task (dl_task d) (\<lambda>t. t\<lparr>ft := True\<rparr>) m
      in (Waiting,
          m1\<lparr>requests := requests m1 @ [Download remoteFile (fullPath entry)],
             running := Some (DlTransfer d index remoteFile entry)\<rparr>))"

text \<open>\<open>task.ft.onprogress\<close>; the transfer stays pending.\<close>

definition onprogress :: "dl \<Rightarrow> nat \<Rightarrow> progress_event \<Rightarrow> manager \<Rightarrow> manager" where
  "onprogress d index e m =
     (if lengthComputable e \<and> \<not> canceled (tasks m ! dl_task d)
      then (case bundle_view (heap m) (dl_bundle d) of
              None \<Rightarrow> m
            | Some v \<Rightarrow>
                let extraDone = jmul (jdiv (Fin (loaded e)) (Fin (total e))) (weight v index)
                in sendEvent
                     (progress_ev (b_name v)
                        (jdiv (jadd (totalDoneSize d) extraDone) (totalSize d))) m)
      else m)"

definition downloadSuccess ::
  "dl \<Rightarrow> nat \<Rightarrow> string \<Rightarrow> fileEntry \<Rightarrow> manager \<Rightarrow> status \<times> manager" where
  "downloadSuccess d index remoteFile entry m =
     file_done d index
       (addLocalURL remoteFile entry (upd_task (dl_task d) (\<lambda>t. t\<lparr>ft := False\<rparr>) m))"

text \<open>\<open>var retry = !err.http_status || err.http_status == 200\<close>.\<close>

definition retry_of :: "transfer_error \<Rightarrow> bool" where
  "retry_of err = (case http_status err of None \<Rightarrow> True | Some s \<Rightarrow> s = 0 \<or> s = 200)"

definition downloadFail :: "dl \<Rightarrow> fileEntry \<Rightarrow> transfer_error \<Rightarrow> manager \<Rightarrow> status \<times> manager" where
  "downloadFail d created err m =
     (let m1 = upd_task (dl_task d) (\<lambda>t. t\<lparr>ft := False\<rparr>) m;
          m2 = m1\<lparr>requests := requests m1 @ [RemoveFile (fullPath created)]\<rparr>
      in if code err = ABORT_ERR then (Completed, m2)
         else downloadBundle_error d (FileTransferError err) (retry_of err) m2)"

text \<open>The wrapper's own timeout calls the error callback with a \<open>CONNECTION_ERR\<close> whose
  \<open>http_status\<close> is \<open>null\<close>.\<close>

definition timeout_error :: transfer_error where
  "timeout_error = \<lparr>code = CONNECTION_ERR, http_status = None\<rparr>"

subsection \<open>The removal orchestrator\<close>

text \<open>The scan of \<open>_removeBundleFiles\<close> over \<open>manager.bundles\<close>: \<open>Some True\<close> when a bundle
  with another name lists the file, \<open>None\<close> when a registered object has no \<open>files\<close> array.\<close>

fun scan_bundles :: "heap \<Rightarrow> string \<Rightarrow> string \<Rightarrow> (string \<times> addr) list \<Rightarrow> bool option" where
  "scan_bundles h bname fileName [] = Some False"
| "scan_bundles h bname fileName ((bName, a) # bs) =
     (if bName = bname then scan_bundles h bname fileName bs
      else case arr_of h (getprop h (JRef a) ''files'') of
             None \<Rightarrow> None
           | Some files \<Rightarrow>
               if JStr fileName \<in> set files then Some True
               else scan_bundles h bname fileName bs)"

function removeBundleFiles_loop :: "nat \<Rightarrow> addr \<Rightarrow> nat \<Rightarrow> manager \<Rightarrow> status \<times> manager" where
  "removeBundleFiles_loop i b index m =
     (if canceled (tasks m ! i) then (Completed, m)
      else case bundle_view (heap m) b of
             None \<Rightarrow> (Stuck, m)
           | Some v \<Rightarrow>
               if index = length (b_files v) then (Completed, m)
               else if length (b_files v) < index then (Stuck, m)
               else (case scan_bundles (heap m) (b_name v) (b_files v ! index) (bundles m) of
                       None \<Rightarrow> (Stuck, m)
                     | Some True \<Rightarrow> removeBundleFiles_loop i b (Suc index) m
                     | Some False \<Rightarrow>
                         (Waiting,
                          m\<lparr>requests := requests m
                               @ [GetFile (localFileName (b_files v ! index)) False],
                            running := Some (RmGetFile i b index (b_files v ! index))\<rparr>)))"
  by pat_completeness auto
termination
  by (relation "measure (\<lambda>(i, b, index, m).
        case bundle_view (heap m) b of None \<Rightarrow> 0 | Some v \<Rightarrow> length (b_files v) - index)")
     auto

definition removeBundleFiles :: "nat \<Rightarrow> manager \<Rightarrow> status \<times> manager" where
  "removeBundleFiles i m =
     (case extra (tasks m ! i) of
        None \<Rightarrow> (Stuck, m)
      | Some b \<Rightarrow> removeBundleFiles_loop i b 0 m)"

text \<open>The file is there: \<open>fileEntry.remove(next, next); _removeLocalURL(manager, fileName)\<close>.\<close>

definition remove_found ::
  "nat \<Rightarrow> addr \<Rightarrow> nat \<Rightarrow> string \<Rightarrow> fileEntry \<Rightarrow> manager \<Rightarrow> status \<times> manager" where
  "remove_found i b index fileName entry m =
     (let m1 = m\<lparr>requests := requests m @ [RemoveFile (fullPath entry)]\<rparr>;
          m2 = removeLocalURL fileName m1
      in (Waiting, m2\<lparr>running := Some (RmRemove i b index)\<rparr>))"

definition doIt :: "nat \<Rightarrow> manager \<Rightarrow> status \<times> manager" where
  "doIt i m =
     (case type (tasks m ! i) of
        TASK_TYPE_LOAD \<Rightarrow> downloadBundle i m
      | TASK_TYPE_REMOVE \<Rightarrow> removeBundleFiles i m)"

subsection \<open>The task scheduler\<close>

text \<open>The index of the first task with \<open>failed == false\<close>.\<close>

primrec first_nonfailed :: "task list \<Rightarrow> nat option" where
  "first_nonfailed [] = None"
| "first_nonfailed (t # ts) =
     (if \<not> failed t then Some 0 else map_option Suc (first_nonfailed ts))"

text \<open>\<open>xs.splice(i, 1)\<close>.\<close>

definition splice1 :: "nat \<Rightarrow> 'a list \<Rightarrow> 'a list" where
  "splice1 i xs = take i xs @ drop (Suc i) xs"

definition onComplete :: "nat \<Rightarrow> manager \<Rightarrow> manager" where
  "onComplete i m =
     (let t = tasks m ! i
      in if canceled t then m
         else if failed t then (if \<not> retry t then m\<lparr>tasks := splice1 i (tasks m)\<rparr> else m)
         else m\<lparr>tasks := splice1 i (tasks m)\<rparr>)"

text \<open>What the termination of the drain loop rests on: a body that completes at once
  leaves the task list alone, and \<open>onComplete\<close> then removes the task.\<close>

lemma first_nonfailed_Some:
  "first_nonfailed ts = Some i \<Longrightarrow> i < length ts \<and> \<not> failed (ts ! i)"
  by (induction ts arbitrary: i) (auto split: if_splits)

lemma sendEvent_tasks [simp]: "tasks (sendEvent e m) = tasks m"
  by (simp add: sendEvent_def)

lemma persist_tasks [simp]: "tasks (persist m) = tasks m"
  by (simp add: persist_def)

lemma setprop_tasks [simp]: "tasks (setprop a p v m) = tasks m"
  by (simp add: setprop_def split: option.splits jsobj.splits)

lemma downloadBundle_loop_Completed_tasks:
  "downloadBundle_loop d index m = (Completed, m') \<Longrightarrow> \<not> canceled (tasks m ! dl_task d)
     \<Longrightarrow> tasks m' = tasks m"
  by (auto simp: downloadBundle_loop_def split: option.splits if_splits)

declare removeBundleFiles_loop.simps [simp del]

lemma removeBundleFiles_loop_Completed:
  "removeBundleFiles_loop i b index m = (Completed, m') \<Longrightarrow> m' = m"
proof (induction i b index m rule: removeBundleFiles_loop.induct)
  case (1 i b index m)
  show ?case
    using "1.prems" "1.IH"
    by (subst (asm) removeBundleFiles_loop.simps)
       (auto split: if_splits option.splits bool.splits)
qed

lemma doIt_Completed_tasks:
  "doIt i m = (Completed, m') \<Longrightarrow> \<not> canceled (tasks m ! i) \<Longrightarrow> tasks m' = tasks m"
  by (auto simp: doIt_def downloadBundle_def removeBundleFiles_def
           dest: downloadBundle_loop_Completed_tasks removeBundleFiles_loop_Completed
           split: task_type.splits option.splits)

lemma length_splice1: "i < length xs \<Longrightarrow> length (splice1 i xs) < length xs"
  by (simp add: splice1_def)

lemma doTasks_loop_decreases:
  assumes sel: "first_nonfailed (filter (\<lambda>t. \<not> canceled t) (tasks m)) = Some i"
    and ts: "tasks m2 = filter (\<lambda>t. \<not> canceled t) (tasks m)"
    and run: "doIt i m2 = (Completed, y)"
  shows "length (tasks (onComplete i y)) < length (tasks m)"
proof -
  let ?ts = "filter (\<lambda>t. \<not> canceled t) (tasks m)"
  from sel have i: "i < length ?ts" and nf: "\<not> failed (?ts ! i)"
    using first_nonfailed_Some by blast+
  from i have "?ts ! i \<in> set ?ts" by (rule nth_mem)
  then have nc: "\<not> canceled (?ts ! i)" by simp
  from run nc ts have eq: "tasks y = ?ts"
    using doIt_Completed_tasks [of i m2 y] by simp
  have "length (tasks (onComplete i y)) < length ?ts"
    using i nf nc eq by (simp add: onComplete_def Let_def length_splice1)
  also have "\<dots> \<le> length (tasks m)" by simp
  finally show ?thesis .
qed

text \<open>
  \<open>loop()\<close> of \<open>_doTasks\<close>.  Every body calls \<open>callback()\<close> in tail position, so a body that
  finishes without waiting returns \<open>Completed\<close> and the loop goes on with \<open>onComplete\<close>; a
  body that waits returns, and its callback resumes the loop later (\<open>resume\<close>).
\<close>

function doTasks_loop :: "manager \<Rightarrow> manager" where
  "doTasks_loop m =
     (let m1 = m\<lparr>tasks := filter (\<lambda>t. \<not> canceled t) (tasks m)\<rparr>
      in case first_nonfailed (tasks m1) of
           None \<Rightarrow>
             if doingTasks m1
             then sendEvent (global_event GLOBAL_EVENT_NOTBUSY) (m1\<lparr>doingTasks := False\<rparr>)
             else m1
         | Some i \<Rightarrow>
             (let m2 = (if \<not> doingTasks m1
                        then sendEvent (global_event GLOBAL_EVENT_BUSY) (m1\<lparr>doingTasks := True\<rparr>)
                        else m1)
              in case doIt i m2 of
                   (Completed, m3) \<Rightarrow> doTasks_loop (onComplete i m3)
                 | (Waiting, m3) \<Rightarrow> m3
                 | (Stuck, m3) \<Rightarrow> m3))"
  by pat_completeness auto
termination
proof (relation "measure (\<lambda>m. length (tasks m))", goal_cases)
  case 1
  show ?case by simp
next
  case (2 m x x2 xa xb y)
  have "length (tasks (onComplete x2 y)) < length (tasks m)"
  proof (rule doTasks_loop_decreases)
    show "first_nonfailed (filter (\<lambda>t. \<not> canceled t) (tasks m)) = Some x2"
      using 2 by simp
    show "doIt x2 xa = (Completed, y)" using 2 by simp
    show "tasks xa = filter (\<lambda>t. \<not> canceled t) (tasks m)" using 2 by simp
  qed
  then show ?case by simp
qed

declare doTasks_loop.simps [simp del]


definition doTasks :: "manager \<Rightarrow> manager" where
  "doTasks m = (if doingTasks m then m else doTasks_loop m)"

text \<open>What follows a step of a body that ran from a callback.\<close>

definition resume :: "nat \<Rightarrow> status \<times> manager \<Rightarrow> manager" where
  "resume i r =
     (case r of
        (Completed, m) \<Rightarrow> doTasks_loop (onComplete i m)
      | (Waiting, m) \<Rightarrow> m
      | (Stuck, m) \<Rightarrow> m)"

definition maybeAddTask :: "string \<Rightarrow> task_type \<Rightarrow> addr option \<Rightarrow> manager \<Rightarrow> manager" where
  "maybeAddTask bName ty ex m =
     (if \<exists>t \<in> set (tasks m). bundleName t = bName \<and> type t = ty \<and> \<not> canceled t then m
      else doTasks (m\<lparr>tasks := tasks m @ [Task bName ty ex]\<rparr>))"

text \<open>The body of the loop of \<open>kickStartTasks\<close>, the callback of the retry timer.\<close>

definition rearm :: "task \<Rightarrow> task" where
  "rearm t =
     (if \<not> canceled t \<and> failed t \<and> retry t then t\<lparr>failed := False, retry := False\<rparr> else t)"

definition kickStartTasks :: "manager \<Rightarrow> manager" where
  "kickStartTasks m = doTasks (m\<lparr>tasks := map rearm (tasks m)\<rparr>)"

subsection \<open>The registry\<close>

text \<open>\<open>_malformedBundle\<close>.  \<open>typeof null\<close> is \<open>'object'\<close>, so \<open>null\<close> passes the first test
  and \<open>bundle.name\<close> raises a \<open>TypeError\<close>.\<close>

definition malformedBundle :: "heap \<Rightarrow> jsval \<Rightarrow> error + bool" where
  "malformedBundle h bundle =
     (if typeof bundle \<noteq> TObject then Inr True
      else if bundle = JNull then Inl TypeError
      else if typeof (getprop h bundle ''name'') \<noteq> TString then Inr True
      else case arr_of h (getprop h bundle ''files'') of
             None \<Rightarrow> Inr True
           | Some files \<Rightarrow>
               if \<exists>v \<in> set files. typeof v \<noteq> TString then Inr True
               else if typeof (getprop h bundle ''fileSizes'') \<noteq> TUndefined
                       \<and> (case arr_of h (getprop h bundle ''fileSizes'') of
                             None \<Rightarrow> True
                           | Some sizes \<Rightarrow> length sizes \<noteq> length files)
                    then Inr True
                    else Inr False)"

text \<open>\<open>x.slice()\<close> with no arguments: a new array with the elements of an array, the string
  itself for a string (strings are values); on any other value of this model the call raises.
  The value is read in the heap \<open>h\<close>.\<close>

definition js_slice :: "heap \<Rightarrow> jsval \<Rightarrow> manager \<Rightarrow> (jsval \<times> manager) option" where
  "js_slice h v m =
     (case v of
        JStr str \<Rightarrow> Some (JStr str, m)
      | _ \<Rightarrow>
          (case arr_of h v of
             None \<Rightarrow> None
           | Some xs \<Rightarrow> (let (a, m') = alloc (JArray xs) m in Some (JRef a, m'))))"

text \<open>\<open>_copyBundle\<close>: a new object with the name, a \<open>slice()\<close> of \<open>files\<close> and, when
  \<open>fileSizes\<close> is truthy, a \<open>slice()\<close> of it.  Nothing else is copied.\<close>

definition copyBundle :: "jsval \<Rightarrow> manager \<Rightarrow> (error + addr) \<times> manager" where
  "copyBundle bundle m =
     (case js_slice (heap m) (getprop (heap m) bundle ''files'') m of
        None \<Rightarrow> (Inl TypeError, m)
      | Some (fv, m1) \<Rightarrow>
          (let (c, m2) = alloc (JObject [(''name'', getprop (heap m) bundle ''name''),
                                        (''files'', fv)]) m1;
               sz = getprop (heap m) bundle ''fileSizes''
           in if truthy sz
              then (case js_slice (heap m) sz m2 of
                      None \<Rightarrow> (Inl TypeError, m2)
                    | Some (sv, m3) \<Rightarrow> (Inr c, setprop c ''fileSizes'' sv m3))
              else (Inr c, m2)))"

definition addBundle :: "jsval \<Rightarrow> manager \<Rightarrow> (error + unit) \<times> manager" where
  "addBundle bundle m =
     (case malformedBundle (heap m) bundle of
        Inl e \<Rightarrow> (Inl e, m)
      | Inr True \<Rightarrow> (Inl (Thrown ''Malformed bundle passed to addBundle''), m)
      | Inr False \<Rightarrow>
          (case getprop (heap m) bundle ''name'' of
             JStr bName \<Rightarrow>
               if hasOwnProperty (bundles m) bName then (Inr (), m)
               else (case copyBundle bundle m of
                       (Inl e, m1) \<Rightarrow> (Inl e, m1)
                     | (Inr c, m1) \<Rightarrow>
                         (let m2 = setprop c ''loaded'' (JBool False) m1;
                              m3 = m2\<lparr>bundles := AList.update bName c (bundles m2)\<rparr>;
                              m4 = persist m3;
                              m5 = cancelTask bName TASK_TYPE_REMOVE m4
                          in (Inr (), maybeAddTask bName TASK_TYPE_LOAD None m5)))
           | _ \<Rightarrow> (Inl TypeError, m)))"

definition removeBundle :: "string \<Rightarrow> manager \<Rightarrow> manager" where
  "removeBundle bName m =
     (case map_of (bundles m) bName of
        Some removedBundle \<Rightarrow>
          (let m1 = m\<lparr>bundles := AList.delete bName (bundles m)\<rparr>;
               m2 = persist m1;
               m3 = cancelTask bName TASK_TYPE_LOAD m2
           in maybeAddTask bName TASK_TYPE_REMOVE (Some removedBundle) m3)
      | None \<Rightarrow> m)"

definition getBundleNames :: "manager \<Rightarrow> string list" where
  "getBundleNames m = map fst (bundles m)"

definition getBundle :: "string \<Rightarrow> manager \<Rightarrow> (error + jsval) \<times> manager" where
  "getBundle bName m =
     (case map_of (bundles m) bName of
        Some b \<Rightarrow>
          (case copyBundle (JRef b) m of
             (Inl e, m1) \<Rightarrow> (Inl e, m1)
           | (Inr c, m1) \<Rightarrow> (Inr (JRef c), m1))
      | None \<Rightarrow> (Inr JUndefined, m))"

definition bundleAdded :: "manager \<Rightarrow> string \<Rightarrow> bool" where
  "bundleAdded m bName = hasOwnProperty (bundles m) bName"

definition bundleLoaded :: "manager \<Rightarrow> string \<Rightarrow> jsval" where
  "bundleLoaded m bName =
     (case map_of (bundles m) bName of
        Some b \<Rightarrow> getprop (heap m) (JRef b) ''loaded''
      | None \<Rightarrow> JBool False)"

subsection \<open>One step of the system\<close>

text \<open>
  What can happen to a manager: a call of its client, a callback of a collaborator, or a timer.
  A collaborator callback is taken by the pending continuation; one that nothing waits for
  does nothing.  The client owns objects in the same store and may rewrite them; it holds
  references to the objects it created and to those \<open>getBundle\<close> returned, never to a record
  of the manager (\<open>addBundle\<close> stores a copy, \<open>getBundle\<close> returns a copy, events carry
  strings and numbers), so \<open>ClientWrite\<close> is a write to an object outside \<open>internal\<close>.
\<close>

datatype input =
    AddBundle jsval
  | RemoveBundle string
  | GetBundle string
  | ClientNew jsobj
  | ClientWrite addr jsobj
  | GetFileSuccess fileEntry
  | GetFileError int
  | TransferProgress progress_event
  | TransferSuccess fileEntry
  | TransferError transfer_error
  | TransferTimeout
  | RemoveCallback
  | EventTimer
  | RetryTimer

text \<open>The index of the task a continuation belongs to, and its bundle record.\<close>

fun cont_task :: "cont \<Rightarrow> nat" where
  "cont_task (DlProbe d index remoteFile) = dl_task d"
| "cont_task (DlCreate d index remoteFile) = dl_task d"
| "cont_task (DlTransfer d index remoteFile created) = dl_task d"
| "cont_task (RmGetFile i b index fileName) = i"
| "cont_task (RmRemove i b index) = i"

fun cont_bundle :: "cont \<Rightarrow> addr" where
  "cont_bundle (DlProbe d index remoteFile) = dl_bundle d"
| "cont_bundle (DlCreate d index remoteFile) = dl_bundle d"
| "cont_bundle (DlTransfer d index remoteFile created) = dl_bundle d"
| "cont_bundle (RmGetFile i b index fileName) = b"
| "cont_bundle (RmRemove i b index) = b"

text \<open>The callback that a collaborator's answer invokes on the pending continuation, up to
  the \<open>callback()\<close> of the body; \<open>None\<close> when the continuation does not wait for this answer.\<close>

definition handle :: "input \<Rightarrow> cont \<Rightarrow> manager \<Rightarrow> (status \<times> manager) option" where
  "handle inp c m =
     (case c of
        DlProbe d index remoteFile \<Rightarrow>
          (case inp of
             GetFileSuccess e \<Rightarrow> Some (file_done d index (m\<lparr>running := None\<rparr>))
           | GetFileError n \<Rightarrow> Some (probe_missing d index remoteFile (m\<lparr>running := None\<rparr>))
           | _ \<Rightarrow> None)
      | DlCreate d index remoteFile \<Rightarrow>
          (case inp of
             GetFileSuccess e \<Rightarrow>
               Some (start_transfer d index remoteFile e (m\<lparr>running := None\<rparr>))
           | GetFileError n \<Rightarrow>
               Some (downloadBundle_error d (UnableToCreateFile n) False (m\<lparr>running := None\<rparr>))
           | _ \<Rightarrow> None)
      | DlTransfer d index remoteFile created \<Rightarrow>
          (case inp of
             TransferProgress e \<Rightarrow> Some (Waiting, onprogress d index e m)
           | TransferSuccess e \<Rightarrow>
               Some (downloadSuccess d index remoteFile e (m\<lparr>running := None\<rparr>))
           | TransferError err \<Rightarrow> Some (downloadFail d created err (m\<lparr>running := None\<rparr>))
           | TransferTimeout \<Rightarrow>
               Some (downloadFail d created timeout_error (m\<lparr>running := None\<rparr>))
           | _ \<Rightarrow> None)
      | RmGetFile i b index fileName \<Rightarrow>
          (case inp of
             GetFileSuccess e \<Rightarrow> Some (remove_found i b index fileName e (m\<lparr>running := None\<rparr>))
           | GetFileError n \<Rightarrow>
               Some (removeBundleFiles_loop i b (Suc index) (m\<lparr>running := None\<rparr>))
           | _ \<Rightarrow> None)
      | RmRemove i b index \<Rightarrow>
          (case inp of
             RemoveCallback \<Rightarrow>
               Some (removeBundleFiles_loop i b (Suc index) (m\<lparr>running := None\<rparr>))
           | _ \<Rightarrow> None))"

definition callback :: "input \<Rightarrow> cont \<Rightarrow> manager \<Rightarrow> manager" where
  "callback inp c m =
     (case handle inp c m of
        None \<Rightarrow> m
      | Some r \<Rightarrow> resume (cont_task c) r)"

text \<open>The records the manager holds: the stored bundles, the removed bundles that Remove
  tasks carry and the bundle of the running body, with their \<open>files\<close> and \<open>fileSizes\<close>
  arrays.\<close>

definition held_records :: "manager \<Rightarrow> addr list" where
  "held_records m =
     map snd (bundles m)
     @ concat (map (\<lambda>t. case extra t of Some b \<Rightarrow> [b] | None \<Rightarrow> []) (tasks m))
     @ (case running m of Some c \<Rightarrow> [cont_bundle c] | None \<Rightarrow> [])"

definition arrays_of :: "heap \<Rightarrow> addr \<Rightarrow> addr list" where
  "arrays_of h a =
     concat (map (\<lambda>p. case getprop h (JRef a) p of JRef r \<Rightarrow> [r] | _ \<Rightarrow> [])
                 [''files'', ''fileSizes''])"

definition internal :: "manager \<Rightarrow> addr list" where
  "internal m = held_records m @ concat (map (arrays_of (heap m)) (held_records m))"

definition step :: "input \<Rightarrow> manager \<Rightarrow> manager" where
  "step inp m =
     (case inp of
        AddBundle b \<Rightarrow> snd (addBundle b m)
      | RemoveBundle n \<Rightarrow> removeBundle n m
      | GetBundle n \<Rightarrow> snd (getBundle n m)
      | ClientNew ob \<Rightarrow> snd (alloc ob m)
      | ClientWrite a ob \<Rightarrow>
          if a < hnext m \<and> a \<notin> set (internal m) then m\<lparr>heap := (heap m)(a \<mapsto> ob)\<rparr> else m
      | EventTimer \<Rightarrow> flushEvents m
      | RetryTimer \<Rightarrow> kickStartTasks m
      | _ \<Rightarrow> (case running m of Some c \<Rightarrow> callback inp c m | None \<Rightarrow> m))"

definition run :: "input list \<Rightarrow> manager \<Rightarrow> manager" where
  "run inps m = fold step inps m"

section \<open>The properties\<close>

subsection \<open>A worked input\<close>

text \<open>The client builds the bundle \<open>{name: "b1", files: ["http://x/f1.png"]}\<close> and adds it to
  a fresh manager.\<close>

definition b1_inputs :: "input list" where
  "b1_inputs =
     [ClientNew (JArray [JStr ''http://x/f1.png'']),
      ClientNew (JObject [(''name'', JStr ''b1''), (''files'', JRef 0)]),
      AddBundle (JRef 1)]"

definition file1 :: fileEntry where
  "file1 = \<lparr>fullPath = ''/assets/f1'', toURL = ''file:///assets/f1''\<rparr>"


definition d0 :: dl where
  "d0 = \<lparr>dl_task = 0, dl_bundle = 3, totalSize = Fin 1, totalDoneSize = Fin 0\<rparr>"


text \<open>The client builds \<open>{name: "b", files: ["a"], fileSizes: ["x", "y"]}\<close>.\<close>

definition mismatch_inputs :: "input list" where
  "mismatch_inputs =
     [ClientNew (JArray [JStr ''a'']),
      ClientNew (JArray [JStr ''x'', JStr ''y'']),
      ClientNew (JObject [(''name'', JStr ''b''), (''files'', JRef 0), (''fileSizes'', JRef 1)])]"

text \<open>Two bundles \<open>A\<close> and \<open>B\<close> that share the file \<open>http://x/f1.png\<close>, both added and
  loaded: the file is downloaded for \<open>A\<close> and found by the probe for \<open>B\<close>.\<close>

definition shared_inputs :: "input list" where
  "shared_inputs =
     [ClientNew (JArray [JStr ''http://x/f1.png'']),
      ClientNew (JObject [(''name'', JStr ''A''), (''files'', JRef 0)]),
      ClientNew (JObject [(''name'', JStr ''B''), (''files'', JRef 0)]),
      AddBundle (JRef 1), GetFileError 1, GetFileSuccess file1, TransferSuccess file1,
      AddBundle (JRef 2), GetFileSuccess file1]"

text \<open>Bundle \<open>A\<close> with the single file \<open>http://x/f1.png\<close>, added and loaded: the file is
  downloaded.\<close>

definition loaded_A_inputs :: "input list" where
  "loaded_A_inputs =
     [ClientNew (JArray [JStr ''http://x/f1.png'']),
      ClientNew (JObject [(''name'', JStr ''A''), (''files'', JRef 0)]),
      AddBundle (JRef 1), GetFileError 1, GetFileSuccess file1, TransferSuccess file1]"

subsection \<open>Files shared between bundles\<close>

text \<open>A file is referenced elsewhere when a registered bundle with another name lists it.\<close>

definition referenced_elsewhere :: "manager \<Rightarrow> string \<Rightarrow> string \<Rightarrow> bool" where
  "referenced_elsewhere m bname fileName =
     (\<exists>(k, a) \<in> set (bundles m).
        k \<noteq> bname
        \<and> (case arr_of (heap m) (getprop (heap m) (JRef a) ''files'') of
              Some files \<Rightarrow> JStr fileName \<in> set files
            | None \<Rightarrow> False))"

definition registry_readable :: "manager \<Rightarrow> bool" where
  "registry_readable m =
     (\<forall>(k, a) \<in> set (bundles m). arr_of (heap m) (getprop (heap m) (JRef a) ''files'') \<noteq> None)"

subsection \<open>Well-formed bundles\<close>

text \<open>In the words of the specification: the bundle is an object whose name is a string,
  whose files are a sequence of strings, and whose fileSizes are absent or a sequence of the
  same length.\<close>

definition spec_wellformed :: "heap \<Rightarrow> jsval \<Rightarrow> bool" where
  "spec_wellformed h bundle =
     (case bundle of
        JRef a \<Rightarrow>
          typeof (getprop h bundle ''name'') = TString
          \<and> (case arr_of h (getprop h bundle ''files'') of
                None \<Rightarrow> False
              | Some files \<Rightarrow>
                  list_all (\<lambda>v. typeof v = TString) files
                  \<and> (getprop h bundle ''fileSizes'' = JUndefined
                       \<or> (case arr_of h (getprop h bundle ''fileSizes'') of
                             None \<Rightarrow> False
                           | Some sizes \<Rightarrow> length sizes = length files)))
      | _ \<Rightarrow> False)"

subsection \<open>Live tasks\<close>

text \<open>A task is live while it is not canceled.  \<open>live_unique\<close> says that no two live tasks of
  a list share their bundle name and type; \<open>live_count\<close> counts the live tasks of one name and
  type.\<close>

definition task_key :: "task \<Rightarrow> string \<times> task_type" where
  "task_key t = (bundleName t, type t)"

definition live_unique :: "task list \<Rightarrow> bool" where
  "live_unique ts = distinct (map task_key (filter (\<lambda>t. \<not> canceled t) ts))"

definition live_count :: "task list \<Rightarrow> string \<Rightarrow> task_type \<Rightarrow> nat" where
  "live_count ts n ty =
     length (filter (\<lambda>t. bundleName t = n \<and> type t = ty \<and> \<not> canceled t) ts)"

text \<open>What identifies a task in the list, as opposed to the flags a body sets.\<close>

definition task_id :: "task \<Rightarrow> string \<times> task_type \<times> bool \<times> addr option" where
  "task_id t = (bundleName t, type t, canceled t, extra t)"

definition ids :: "manager \<Rightarrow> (string \<times> task_type \<times> bool \<times> addr option) list" where
  "ids m = map task_id (tasks m)"

subsection \<open>Global events\<close>

text \<open>
  The global events are the events without a bundle name.  \<open>gtrace\<close> is the sequence of all
  global events produced so far, delivered or still queued (\<open>_purgeEvents\<close> removes named events
  only).  \<open>alternates b ks\<close>: from a scheduler that is busy iff \<open>b\<close>, the events \<open>ks\<close> switch
  between busy and not busy, one at a time.
\<close>

definition gtrace :: "manager \<Rightarrow> event_kind list" where
  "gtrace m = map event (filter (\<lambda>e. name e = None) (delivered m @ eventQueue m))"

fun alternates :: "bool \<Rightarrow> event_kind list \<Rightarrow> bool" where
  "alternates b [] = True"
| "alternates b (k # ks) =
     (k = (if b then GLOBAL_EVENT_NOTBUSY else GLOBAL_EVENT_BUSY) \<and> alternates (\<not> b) ks)"

text \<open>
  The scheduler's busy discipline: the global events alternate, starting with busy; the
  scheduler is busy exactly when the last of them is a busy event; a task body waits for a
  callback only while the scheduler is busy; and while it is not busy, no task that has not
  failed is left in the list.
\<close>

definition busy_inv :: "manager \<Rightarrow> bool" where
  "busy_inv m \<longleftrightarrow>
     alternates False (gtrace m)
     \<and> (doingTasks m \<longleftrightarrow> odd (length (gtrace m)))
     \<and> (running m \<noteq> None \<longrightarrow> doingTasks m)
     \<and> (\<not> doingTasks m \<longrightarrow> (\<forall>t \<in> set (tasks m). failed t))"

text \<open>What a task body leaves alone: the global events, \<open>doingTasks\<close> and, unless it waits, the
  pending continuation.  \<open>loop_head\<close> is what holds whenever \<open>loop()\<close> of \<open>_doTasks\<close> starts.\<close>

definition quiet :: "manager \<Rightarrow> status \<times> manager \<Rightarrow> bool" where
  "quiet m r \<longleftrightarrow>
     gtrace (snd r) = gtrace m \<and> doingTasks (snd r) = doingTasks m
     \<and> (if fst r = Waiting then running (snd r) \<noteq> None else running (snd r) = running m)"



subsection \<open>Events of a canceled Load task\<close>

text \<open>The name a bundle record carries, and whether a continuation belongs to a Load body.\<close>

definition nm :: "heap \<Rightarrow> addr \<Rightarrow> jsval" where
  "nm h a = getprop h (JRef a) ''name''"

fun is_dl :: "cont \<Rightarrow> bool" where
  "is_dl (DlProbe d index remoteFile) = True"
| "is_dl (DlCreate d index remoteFile) = True"
| "is_dl (DlTransfer d index remoteFile created) = True"
| "is_dl (RmGetFile i b index fileName) = False"
| "is_dl (RmRemove i b index) = False"

text \<open>
  The records the manager works on carry the names it knows them by: a registered record is
  stored under its own name, and the record of a running Load body has the name of the task
  that runs it.  A body waits only while the scheduler is busy, for a task of the list.
\<close>

definition names_ok :: "manager \<Rightarrow> bool" where
  "names_ok m \<longleftrightarrow>
     (\<forall>(k, a) \<in> set (bundles m). a < hnext m \<and> nm (heap m) a = JStr k)
     \<and> (case running m of
          None \<Rightarrow> True
        | Some c \<Rightarrow>
            doingTasks m \<and> cont_task c < length (tasks m)
            \<and> (is_dl c \<longrightarrow>
                  cont_bundle c < hnext m
                  \<and> nm (heap m) (cont_bundle c) = JStr (bundleName (tasks m ! cont_task c))
                  \<and> type (tasks m ! cont_task c) = TASK_TYPE_LOAD))"

text \<open>The names and types of the tasks, in the order of the list.\<close>

definition keys :: "manager \<Rightarrow> (string \<times> task_type) list" where
  "keys m = map task_key (tasks m)"

text \<open>Every event a body adds is named after its bundle record, and a body whose task is
  canceled adds none.\<close>

definition emits :: "nat \<Rightarrow> addr \<Rightarrow> manager \<Rightarrow> manager \<Rightarrow> bool" where
  "emits i b m m' \<longleftrightarrow>
     (\<forall>e \<in> set (eventQueue m').
        e \<in> set (eventQueue m)
        \<or> (\<not> canceled (tasks m ! i) \<and> (\<exists>k. name e = Some k \<and> nm (heap m) b = JStr k)))"

text \<open>A body that waits leaves its own continuation behind; one that does not leaves
  \<open>running\<close> as it found it.\<close>

definition waits :: "bool \<Rightarrow> nat \<Rightarrow> addr \<Rightarrow> manager \<Rightarrow> status \<times> manager \<Rightarrow> bool" where
  "waits ld i b m r \<longleftrightarrow>
     (if fst r = Waiting
      then \<exists>c. running (snd r) = Some c \<and> cont_task c = i \<and> cont_bundle c = b \<and> is_dl c = ld
      else running (snd r) = running m)"

text \<open>
  \<open>silent N D\<close>: every Load task of a name in \<open>N\<close> is canceled, no queued event carries a name
  in \<open>N\<close>, and \<open>D\<close> are the events with a name in \<open>N\<close> delivered so far.
\<close>

definition silent :: "string set \<Rightarrow> event list \<Rightarrow> manager \<Rightarrow> bool" where
  "silent N D m \<longleftrightarrow>
     names_ok m
     \<and> (\<forall>t \<in> set (tasks m). bundleName t \<in> N \<and> type t = TASK_TYPE_LOAD \<longrightarrow> canceled t)
     \<and> (\<forall>e \<in> set (eventQueue m). name e \<notin> Some ` N)
     \<and> filter (\<lambda>e. name e \<in> Some ` N) (delivered m) = D"

text \<open>What a step of a task body does to the state it starts in.\<close>

definition body_step :: "bool \<Rightarrow> nat \<Rightarrow> addr \<Rightarrow> manager \<Rightarrow> status \<times> manager \<Rightarrow> bool" where
  "body_step ld i b m r \<longleftrightarrow>
     hnext (snd r) = hnext m \<and> bundles (snd r) = bundles m \<and> delivered (snd r) = delivered m
     \<and> doingTasks (snd r) = doingTasks m \<and> ids (snd r) = ids m
     \<and> (\<forall>a. nm (heap (snd r)) a = nm (heap m) a)
     \<and> (if ld then emits i b m (snd r) else eventQueue (snd r) = eventQueue m)
     \<and> waits ld i b m r"

text \<open>\<open>plain_bundle h b\<close>: neither the name of the bundle object \<open>b\<close> nor any of its file names
  is a \<open>reserved\<close> key.  \<open>ordinary inps m\<close>: every bundle that the client passes to \<open>addBundle\<close>
  in the course of \<open>inps\<close>, from \<open>m\<close> on, is plain at the time of the call.  In an ordinary run
  the dictionaries \<open>bundles\<close> and \<open>localURLs\<close> never receive a reserved key.\<close>

definition plain_bundle :: "heap \<Rightarrow> jsval \<Rightarrow> bool" where
  "plain_bundle h b \<longleftrightarrow>
     (\<forall>r \<in> set reserved.
        getprop h b ''name'' \<noteq> JStr r
        \<and> (case arr_of h (getprop h b ''files'') of
             None \<Rightarrow> True
           | Some fs \<Rightarrow> JStr r \<notin> set fs))"

fun ordinary :: "input list \<Rightarrow> manager \<Rightarrow> bool" where
  "ordinary [] m = True"
| "ordinary (inp # inps) m =
     ((case inp of AddBundle b \<Rightarrow> plain_bundle (heap m) b | _ \<Rightarrow> True)
      \<and> ordinary inps (step inp m))"

text \<open>The inputs \<open>inps\<close>, applied from \<open>m\<close>, never pass a bundle named \<open>n\<close> to \<open>addBundle\<close>.\<close>

fun no_readd :: "string \<Rightarrow> input list \<Rightarrow> manager \<Rightarrow> bool" where
  "no_readd n [] m = True"
| "no_readd n (inp # inps) m =
     ((case inp of AddBundle b \<Rightarrow> getprop (heap m) b ''name'' \<noteq> JStr n | _ \<Rightarrow> True)
      \<and> no_readd n inps (step inp m))"

text \<open>While the probe of \<open>b1\<close>'s file is pending, the client adds
  \<open>{name: "b2", files: ["http://x/f2.png"]}\<close>: the Load task of \<open>b2\<close> is queued behind the
  running one.  After \<open>b2\<close> is removed, the probe finds \<open>b1\<close>'s file, the Remove task of \<open>b2\<close>
  finds no local file, and the event timer fires.\<close>

definition pending_inputs :: "input list" where
  "pending_inputs =
     b1_inputs
     @ [ClientNew (JArray [JStr ''http://x/f2.png'']),
        ClientNew (JObject [(''name'', JStr ''b2''), (''files'', JRef 4)]),
        AddBundle (JRef 5)]"

definition after_cancel_inputs :: "input list" where
  "after_cancel_inputs = [GetFileSuccess file1, EventTimer, GetFileError 1, EventTimer]"

subsection \<open>Frames\<close>

text \<open>\<open>frame m m'\<close>: \<open>m'\<close> is \<open>m\<close> with more objects allocated.\<close>

definition frame :: "manager \<Rightarrow> manager \<Rightarrow> bool" where
  "frame m m' \<longleftrightarrow>
     bundles m' = bundles m \<and> localURLs m' = localURLs m \<and> tasks m' = tasks m
     \<and> doingTasks m' = doingTasks m \<and> eventQueue m' = eventQueue m
     \<and> eventTimer m' = eventTimer m \<and> storage m' = storage m \<and> running m' = running m
     \<and> requests m' = requests m \<and> delivered m' = delivered m
     \<and> hnext m \<le> hnext m' \<and> (\<forall>a < hnext m. heap m' a = heap m a)"

subsection \<open>The padded message of the digest\<close>

text \<open>The array \<open>a\<close> of \<open>SHA1\<close> after its two padding writes, for a message of \<open>b\<close> bits
  whose words are \<open>a0\<close>.\<close>

definition padded :: "u32 list \<Rightarrow> nat \<Rightarrow> u32 list" where
  "padded a0 b =
     jsset (jsor a0 (b div 32) (push_bit (24 - b mod 32) 0x80))
           (((b + 65) div 512) * 16 + 15) (of_nat b)"

text \<open>An identifier of 56 characters, and the same followed by \<open>0x80\<close> and seven \<open>0x00\<close>.\<close>

definition uri56 :: string where
  "uri56 = replicate 56 (CHR ''a'')"

definition uri64 :: string where
  "uri64 = replicate 56 (CHR ''a'') @ [CHR 0x80] @ replicate 7 (CHR 0x00)"

subsection \<open>Progress of a load\<close>



text \<open>The \<open>done\<close> fractions of the progress events named \<open>n\<close> in a sequence of events, in
  order.  \<open>fin_le\<close> compares numbers, and says no when one of them is not a finite number.
  \<open>nondecreasing_to_one\<close>: each fraction is at most every later one, and at most 1.\<close>

definition fractions :: "string \<Rightarrow> event list \<Rightarrow> jsnum list" where
  "fractions n q =
     List.map_filter
       (\<lambda>e. if name e = Some n \<and> event e = BUNDLE_EVENT_PROGRESS then done_fraction e else None) q"

fun fin_le :: "jsnum \<Rightarrow> jsnum \<Rightarrow> bool" where
  "fin_le (Fin a) (Fin b) = (a \<le> b)"
| "fin_le x y = False"









text \<open>
  The invariant of a run of the body of task \<open>i\<close> on the record \<open>b\<close> with view \<open>v\<close>, started
  when the queue had \<open>k0\<close> events.  \<open>fracs_ok u fs\<close>: the fractions \<open>fs\<close> do not decrease and
  are at most \<open>u\<close>.  \<open>clo\<close>: the closure variables while file \<open>k\<close> is in work: \<open>totalSize\<close> is
  the sum of the weights, \<open>totalDoneSize\<close> the sum of the weights of the files before \<open>k\<close>.
  \<open>queue_ok\<close>: if the task is canceled no progress event of the bundle is queued, and otherwise
  the fractions queued since the start satisfy \<open>fracs_ok u\<close>.  \<open>waiting\<close> is what holds while
  the body waits at a continuation with \<open>p\<close> the last tick, \<open>final\<close> what holds when it has
  ended, and \<open>run_out\<close> says how a run ends that completes: with the task marked failed or with
  the bundle marked loaded.
\<close>

definition fracs_ok :: "rat \<Rightarrow> jsnum list \<Rightarrow> bool" where
  "fracs_ok u fs \<longleftrightarrow> sorted_wrt fin_le fs \<and> (\<forall>d \<in> set fs. fin_le d (Fin u))"


















section \<open>The local file name\<close>

lemma length_SHA1: "length (SHA1 s) = 40"
  unfolding SHA1_def tohex_def digest_def Let_def
  by (simp add: length_concat comp_def sum_list_triv split: prod.splits)

lemma lastIndexOf_absent: "c \<notin> set s \<Longrightarrow> lastIndexOf s c = - 1"
  by (simp add: lastIndexOf_def)

lemma lastIndexOf_last_occurrence:
  assumes "c \<notin> set ext"
  shows "lastIndexOf (pre @ c # ext) c = int (length pre)"
proof -
  have "takeWhile (\<lambda>x. x \<noteq> c) (rev (pre @ c # ext)) = rev ext"
    using assms by (auto simp: takeWhile_tail)
  then show ?thesis by (simp add: lastIndexOf_def)
qed

text \<open>
  The local name of a remote identifier is a function of the identifier alone: the 40
  characters of its digest, followed by the part of the identifier that starts at its last
  \<open>'.'\<close> exactly when that \<open>'.'\<close> is neither the first nor the last character (the guard is
  \<open>l < 1\<close>).  An identifier without a \<open>'.'\<close>, one whose only \<open>'.'\<close> comes first and one that
  ends in \<open>'.'\<close> get the bare digest.
\<close>

lemma localFileName_extension:
  "length (SHA1 uri) = 40 \<and>
   (CHR ''.'' \<notin> set uri \<longrightarrow> localFileName uri = SHA1 uri) \<and>
   (\<forall>pre ext. uri = pre @ CHR ''.'' # ext \<and> CHR ''.'' \<notin> set ext \<longrightarrow>
      localFileName uri = SHA1 uri @ (if pre = [] \<or> ext = [] then [] else CHR ''.'' # ext))"
proof (intro conjI allI impI)
  show "length (SHA1 uri) = 40" by (rule length_SHA1)
next
  assume "CHR ''.'' \<notin> set uri"
  then show "localFileName uri = SHA1 uri"
    by (simp add: localFileName_def lastIndexOf_absent)
next
  fix pre ext
  assume h: "uri = pre @ CHR ''.'' # ext \<and> CHR ''.'' \<notin> set ext"
  then have l: "lastIndexOf uri (CHR ''.'') = int (length pre)"
    by (simp add: lastIndexOf_last_occurrence)
  show "localFileName uri = SHA1 uri @ (if pre = [] \<or> ext = [] then [] else CHR ''.'' # ext)"
    using h unfolding localFileName_def l Let_def by auto
qed

text \<open>At \<open>http://x/f1.png\<close>, which keeps \<open>.png\<close>, and at \<open>README\<close>, which has no
  extension.\<close>

lemma localFileName_extension_example:
  "localFileName ''http://x/f1.png'' = SHA1 ''http://x/f1.png'' @ ''.png''
   \<and> localFileName ''README'' = SHA1 ''README''"
proof
  have "''http://x/f1.png'' = ''http://x/f1'' @ CHR ''.'' # ''png'' \<and> CHR ''.'' \<notin> set ''png''"
    by simp
  with localFileName_extension [of "''http://x/f1.png''"]
  have "localFileName ''http://x/f1.png''
        = SHA1 ''http://x/f1.png''
          @ (if ''http://x/f1'' = [] \<or> ''png'' = [] then [] else CHR ''.'' # ''png'')"
    by blast
  then show "localFileName ''http://x/f1.png'' = SHA1 ''http://x/f1.png'' @ ''.png''"
    by simp
next
  have "CHR ''.'' \<notin> set ''README''" by simp
  with localFileName_extension [of "''README''"]
  show "localFileName ''README'' = SHA1 ''README''" by blast
qed

text \<open>\<open>.png\<close> contains a \<open>'.'\<close> that is not trailing, and its local name is the bare digest:
  the guard \<open>l < 1\<close> takes a leading dot for no extension.\<close>

lemma localFileName_leading_dot:
  "CHR ''.'' \<in> set ''.png'' \<and> last ''.png'' \<noteq> CHR ''.''
   \<and> localFileName ''.png'' = SHA1 ''.png''"
  by (simp add: localFileName_def lastIndexOf_def)


subsection \<open>The digest\<close>

text \<open>A block of the digest reads sixteen words of the array, and nothing else of it.\<close>

lemma round_j_cong:
  "(j < 16 \<Longrightarrow> jsget a (j + i) = jsget a' (j + i)) \<Longrightarrow> round_j a i j s = round_j a' i j s"
  by (cases "j < 16") (simp_all add: round_j_def split: prod.splits)

lemma fold_round_cong:
  assumes "\<forall>j < 16. jsget a (j + i) = jsget a' (j + i)"
  shows "fold (round_j a i) js s = fold (round_j a' i) js s"
proof (induction js arbitrary: s)
  case Nil
  show ?case by simp
next
  case (Cons j js)
  have "round_j a i j s = round_j a' i j s" using assms by (intro round_j_cong) simp
  then show ?case using Cons by simp
qed

lemma block_cong:
  "\<forall>j < 16. jsget a (j + i) = jsget a' (j + i) \<Longrightarrow> block a r i = block a' r i"
  by (simp add: block_def fold_round_cong [of a i a'])

lemma digest_one_block:
  assumes "a0 \<noteq> []" and "length a0 \<le> 16"
  shows "digest a0 b
           = (case block (padded a0 b)
                     (0x67452301, 0xefcdab89, 0x98badcfe, 0x10325476, 0xc3d2e1f0) 0 of
                (v, w, x, y, z) \<Rightarrow> [v, w, x, y, z])"
proof -
  have "0 < length a0" using assms(1) by simp
  then have "(length a0 + 15) div 16 = 1"
    using assms(2) by (intro div_nat_eqI) (simp_all add: Suc_le_eq)
  then show ?thesis by (simp add: digest_def padded_def Let_def)
qed

lemma words56: "str2words uri56 = replicate 14 0x61616161"
  by code_simp

lemma words64: "str2words uri64 = replicate 14 0x61616161 @ [0x80000000, 0]"
  by code_simp

lemma first_block_equal:
  "map (jsget (padded (replicate 14 0x61616161) 448)) [0 ..< 16]
     = map (jsget (padded (replicate 14 0x61616161 @ [0x80000000, 0]) 512)) [0 ..< 16]"
  by code_simp

lemma SHA1_collision: "SHA1 uri56 = SHA1 uri64"
proof -
  let ?a = "padded (replicate 14 0x61616161) 448"
  let ?a' = "padded (replicate 14 0x61616161 @ [0x80000000, 0]) 512"
  have e: "\<forall>j < 16. jsget ?a (j + 0) = jsget ?a' (j + 0)"
  proof (intro allI impI)
    fix j :: nat assume j: "j < 16"
    show "jsget ?a (j + 0) = jsget ?a' (j + 0)" using first_block_equal j by auto
  qed
  have l: "length uri56 * 8 = 448" "length uri64 * 8 = 512" by (simp_all add: uri56_def uri64_def)
  have "digest (str2words uri56) 448 = digest (str2words uri64) 512"
    unfolding words56 words64
    by (simp add: digest_one_block block_cong [OF e])
  then show ?thesis by (simp add: SHA1_def l)
qed

text \<open>
  C9.  The claim has the local name consist of a collision-resistant digest of the identifier.
  The bundled \<open>SHA1\<close> reads \<open>h = a.length\<close> before it writes the padding into \<open>a\<close>, and its
  loop \<open>for (i = 0; i < h; i += 16)\<close> stops at the blocks of the unpadded message: when the
  padding opens a new block (identifiers of 56 to 64 characters, and so on every 64), the
  block with the length is never hashed, and neither is a padding bit that falls into it.
  An identifier of 56 characters and the same identifier followed by the characters that the
  padding would write (\<open>0x80\<close> and seven \<open>0x00\<close>) are then hashed as the same single block:
  two different identifiers, one local file name.
\<close>

theorem localFileName_collision:
  "uri56 \<noteq> uri64 \<and> localFileName uri56 = localFileName uri64"
proof
  have "length uri56 \<noteq> length uri64" by (simp add: uri56_def uri64_def)
  then show "uri56 \<noteq> uri64" by auto
  have "CHR ''.'' \<notin> set uri56" "CHR ''.'' \<notin> set uri64"
    by (auto simp: uri56_def uri64_def)
  then show "localFileName uri56 = localFileName uri64"
    using SHA1_collision by (simp add: localFileName_def lastIndexOf_absent)
qed

section \<open>Evaluating the model\<close>

text \<open>The equations that compute a concrete run.\<close>

lemmas eval_defs = run_def step_def alloc_def DAM_def addBundle_def removeBundle_def
  getBundle_def malformedBundle_def getprop_def arr_of_def copyBundle_def js_slice_def setprop_def
  persist_def serialize_obj_def cancelTask_def abort_def purgeEvents_def maybeAddTask_def
  kickStartTasks_def rearm_def doTasks_def doTasks_loop.simps resume_def onComplete_def
  splice1_def Task_def upd_task_def doIt_def callback_def handle_def
  downloadBundle_def downloadBundle_loop_def downloadBundle_error_def file_done_def
  probe_missing_def start_transfer_def onprogress_def downloadSuccess_def downloadFail_def
  retry_of_def timeout_error_def removeBundleFiles_def removeBundleFiles_loop.simps
  remove_found_def addLocalURL_def removeLocalURL_def flushEvents_def
  bundle_view_def weight_def total_weight_def sendEvent_def
  global_event_def bundle_event_def progress_ev_def error_ev_def hasOwnProperty_def Let_def

section \<open>What the operations leave unchanged\<close>

lemma sendEvent_sel [simp]:
  "heap (sendEvent e m) = heap m"
  "hnext (sendEvent e m) = hnext m"
  "bundles (sendEvent e m) = bundles m"
  "localURLs (sendEvent e m) = localURLs m"
  "tasks (sendEvent e m) = tasks m"
  "doingTasks (sendEvent e m) = doingTasks m"
  "storage (sendEvent e m) = storage m"
  "running (sendEvent e m) = running m"
  "requests (sendEvent e m) = requests m"
  "delivered (sendEvent e m) = delivered m"
  by (simp_all add: sendEvent_def)

lemma persist_sel [simp]:
  "heap (persist  m) = heap m"
  "hnext (persist  m) = hnext m"
  "bundles (persist  m) = bundles m"
  "localURLs (persist  m) = localURLs m"
  "tasks (persist  m) = tasks m"
  "doingTasks (persist  m) = doingTasks m"
  "eventQueue (persist  m) = eventQueue m"
  "eventTimer (persist  m) = eventTimer m"
  "running (persist  m) = running m"
  "requests (persist  m) = requests m"
  "delivered (persist  m) = delivered m"
  by (simp_all add: persist_def)

lemma setprop_sel [simp]:
  "hnext (setprop a p v m) = hnext m"
  "bundles (setprop a p v m) = bundles m"
  "localURLs (setprop a p v m) = localURLs m"
  "tasks (setprop a p v m) = tasks m"
  "doingTasks (setprop a p v m) = doingTasks m"
  "eventQueue (setprop a p v m) = eventQueue m"
  "eventTimer (setprop a p v m) = eventTimer m"
  "storage (setprop a p v m) = storage m"
  "running (setprop a p v m) = running m"
  "requests (setprop a p v m) = requests m"
  "delivered (setprop a p v m) = delivered m"
  by (simp_all add: setprop_def split: option.splits jsobj.splits)

lemma purgeEvents_sel [simp]:
  "heap (purgeEvents n m) = heap m"
  "hnext (purgeEvents n m) = hnext m"
  "bundles (purgeEvents n m) = bundles m"
  "localURLs (purgeEvents n m) = localURLs m"
  "tasks (purgeEvents n m) = tasks m"
  "doingTasks (purgeEvents n m) = doingTasks m"
  "eventTimer (purgeEvents n m) = eventTimer m"
  "storage (purgeEvents n m) = storage m"
  "running (purgeEvents n m) = running m"
  "requests (purgeEvents n m) = requests m"
  "delivered (purgeEvents n m) = delivered m"
  by (simp_all add: purgeEvents_def)

lemma upd_task_sel [simp]:
  "heap (upd_task i f m) = heap m"
  "hnext (upd_task i f m) = hnext m"
  "bundles (upd_task i f m) = bundles m"
  "localURLs (upd_task i f m) = localURLs m"
  "doingTasks (upd_task i f m) = doingTasks m"
  "eventQueue (upd_task i f m) = eventQueue m"
  "eventTimer (upd_task i f m) = eventTimer m"
  "storage (upd_task i f m) = storage m"
  "running (upd_task i f m) = running m"
  "requests (upd_task i f m) = requests m"
  "delivered (upd_task i f m) = delivered m"
  by (simp_all add: upd_task_def)

lemma addLocalURL_sel [simp]:
  "heap (addLocalURL r e m) = heap m"
  "hnext (addLocalURL r e m) = hnext m"
  "bundles (addLocalURL r e m) = bundles m"
  "tasks (addLocalURL r e m) = tasks m"
  "doingTasks (addLocalURL r e m) = doingTasks m"
  "eventQueue (addLocalURL r e m) = eventQueue m"
  "eventTimer (addLocalURL r e m) = eventTimer m"
  "storage (addLocalURL r e m) = storage m"
  "running (addLocalURL r e m) = running m"
  "requests (addLocalURL r e m) = requests m"
  "delivered (addLocalURL r e m) = delivered m"
  by (simp_all add: addLocalURL_def)

lemma removeLocalURL_sel [simp]:
  "heap (removeLocalURL r m) = heap m"
  "hnext (removeLocalURL r m) = hnext m"
  "bundles (removeLocalURL r m) = bundles m"
  "tasks (removeLocalURL r m) = tasks m"
  "doingTasks (removeLocalURL r m) = doingTasks m"
  "eventQueue (removeLocalURL r m) = eventQueue m"
  "eventTimer (removeLocalURL r m) = eventTimer m"
  "storage (removeLocalURL r m) = storage m"
  "running (removeLocalURL r m) = running m"
  "requests (removeLocalURL r m) = requests m"
  "delivered (removeLocalURL r m) = delivered m"
  by (simp_all add: removeLocalURL_def)

lemma flushEvents_sel [simp]:
  "heap (flushEvents  m) = heap m"
  "hnext (flushEvents  m) = hnext m"
  "bundles (flushEvents  m) = bundles m"
  "localURLs (flushEvents  m) = localURLs m"
  "tasks (flushEvents  m) = tasks m"
  "doingTasks (flushEvents  m) = doingTasks m"
  "storage (flushEvents  m) = storage m"
  "running (flushEvents  m) = running m"
  "requests (flushEvents  m) = requests m"
  by (simp_all add: flushEvents_def)

lemma abort_sel [simp]:
  "heap (abort i m) = heap m" "hnext (abort i m) = hnext m" "bundles (abort i m) = bundles m"
  "localURLs (abort i m) = localURLs m" "doingTasks (abort i m) = doingTasks m"
  "storage (abort i m) = storage m" "running (abort i m) = running m"
  "delivered (abort i m) = delivered m" "eventTimer (abort i m) = eventTimer m"
  by (simp_all add: abort_def Let_def)

lemma abort_tasks: "tasks (abort i m) = (tasks m)[i := (tasks m ! i)\<lparr>canceled := True\<rparr>]"
  by (simp add: abort_def Let_def upd_task_def purgeEvents_def)

lemma length_tasks_abort [simp]: "length (tasks (abort i m)) = length (tasks m)"
  by (simp add: abort_tasks)

text \<open>cancelTask as a fold.\<close>

lemma cancel_fold_frame:
  "heap (fold (\<lambda>i m. if Q i m then abort i m else m) js m) = heap m \<and>
   hnext (fold (\<lambda>i m. if Q i m then abort i m else m) js m) = hnext m \<and>
   bundles (fold (\<lambda>i m. if Q i m then abort i m else m) js m) = bundles m \<and>
   localURLs (fold (\<lambda>i m. if Q i m then abort i m else m) js m) = localURLs m \<and>
   doingTasks (fold (\<lambda>i m. if Q i m then abort i m else m) js m) = doingTasks m \<and>
   storage (fold (\<lambda>i m. if Q i m then abort i m else m) js m) = storage m \<and>
   running (fold (\<lambda>i m. if Q i m then abort i m else m) js m) = running m \<and>
   delivered (fold (\<lambda>i m. if Q i m then abort i m else m) js m) = delivered m \<and>
   eventTimer (fold (\<lambda>i m. if Q i m then abort i m else m) js m) = eventTimer m \<and>
   length (tasks (fold (\<lambda>i m. if Q i m then abort i m else m) js m)) = length (tasks m)"
  by (induction js arbitrary: m) simp_all

lemma cancelTask_sel [simp]:
  "heap (cancelTask n ty m) = heap m" "hnext (cancelTask n ty m) = hnext m"
  "bundles (cancelTask n ty m) = bundles m" "localURLs (cancelTask n ty m) = localURLs m"
  "doingTasks (cancelTask n ty m) = doingTasks m" "storage (cancelTask n ty m) = storage m"
  "running (cancelTask n ty m) = running m" "delivered (cancelTask n ty m) = delivered m"
  "eventTimer (cancelTask n ty m) = eventTimer m"
  "length (tasks (cancelTask n ty m)) = length (tasks m)"
  unfolding cancelTask_def
  using cancel_fold_frame [where Q = "\<lambda>i m. bundleName (tasks m ! i) = n \<and> type (tasks m ! i) = ty"
                             and m = m and js = "[0 ..< length (tasks m)]"]
  by simp_all

lemma fold_abort_invariant:
  assumes "\<And>i m. P m \<Longrightarrow> P (abort i m)" and "P m"
  shows "P (fold (\<lambda>i m. if Q i m then abort i m else m) js m)"
  using assms(2) by (induction js arbitrary: m) (simp_all add: assms(1))

lemma cancelTask_invariant:
  assumes "\<And>i m. P m \<Longrightarrow> P (abort i m)" and "P m"
  shows "P (cancelTask n ty m)"
  unfolding cancelTask_def by (rule fold_abort_invariant) (fact assms)+

text \<open>An invariant \<open>Q\<close> of the head of the drain loop gives \<open>R\<close> of the state it returns.\<close>

lemma doTasks_loop_rule:
  assumes init: "Q m"
    and strip: "\<And>m. Q m \<Longrightarrow> Q (m\<lparr>tasks := filter (\<lambda>t. \<not> canceled t) (tasks m)\<rparr>)"
    and idle: "\<And>m. Q m \<Longrightarrow> first_nonfailed (tasks m) = None \<Longrightarrow> doingTasks m
                 \<Longrightarrow> R (sendEvent (global_event GLOBAL_EVENT_NOTBUSY) (m\<lparr>doingTasks := False\<rparr>))"
    and rest: "\<And>m. Q m \<Longrightarrow> first_nonfailed (tasks m) = None \<Longrightarrow> \<not> doingTasks m \<Longrightarrow> R m"
    and busy: "\<And>m. Q m \<Longrightarrow> \<not> doingTasks m
                 \<Longrightarrow> Q (sendEvent (global_event GLOBAL_EVENT_BUSY) (m\<lparr>doingTasks := True\<rparr>))"
    and body: "\<And>m i st m'. Q m \<Longrightarrow> doingTasks m \<Longrightarrow> i < length (tasks m)
                 \<Longrightarrow> \<not> canceled (tasks m ! i) \<Longrightarrow> \<not> failed (tasks m ! i)
                 \<Longrightarrow> first_nonfailed (tasks m) = Some i
                 \<Longrightarrow> doIt i m = (st, m')
                 \<Longrightarrow> (if st = Completed then Q (onComplete i m') else R m')"
  shows "R (doTasks_loop m)"
  using init
proof (induction m rule: doTasks_loop.induct)
  case (1 m)
  let ?m1 = "m\<lparr>tasks := filter (\<lambda>t. \<not> canceled t) (tasks m)\<rparr>"
  have q1: "Q ?m1" using "1.prems" by (rule strip)
  show ?case
  proof (cases "first_nonfailed (tasks ?m1)")
    case None
    then show ?thesis
      using q1 idle [of ?m1] rest [of ?m1] by (subst doTasks_loop.simps) (simp add: Let_def)
  next
    case (Some i)
    let ?m2 = "if \<not> doingTasks ?m1
               then sendEvent (global_event GLOBAL_EVENT_BUSY) (?m1\<lparr>doingTasks := True\<rparr>)
               else ?m1"
    have q2: "Q ?m2" using q1 busy [of ?m1] by simp
    have d2: "doingTasks ?m2" by simp
    have t2: "tasks ?m2 = filter (\<lambda>t. \<not> canceled t) (tasks m)" by simp
    from Some first_nonfailed_Some
    have i: "i < length (tasks ?m2)" and nf: "\<not> failed (tasks ?m2 ! i)"
      by (simp_all add: t2 del: length_filter_less)
    from i have "tasks ?m2 ! i \<in> set (tasks ?m2)" by (rule nth_mem)
    then have nc: "\<not> canceled (tasks ?m2 ! i)" unfolding t2 by simp
    have sel: "first_nonfailed (tasks ?m2) = Some i" using Some by simp
    obtain st m3 where r: "doIt i ?m2 = (st, m3)" by (cases "doIt i ?m2")
    note b = body [OF q2 d2 i nc nf sel r]
    show ?thesis
    proof (cases st)
      case Completed
      have "R (doTasks_loop (onComplete i m3))"
      proof (rule "1.IH" [OF refl Some refl _ refl])
        show "(Completed, m3) = doIt i ?m2" using r Completed by simp
        show "Q (onComplete i m3)" using b Completed by simp
      qed
      then show ?thesis
        using Some r Completed by (subst doTasks_loop.simps) (simp add: Let_def)
    next
      case Waiting
      then show ?thesis
        using Some r b by (subst doTasks_loop.simps) (simp add: Let_def)
    next
      case Stuck
      then show ?thesis
        using Some r b by (subst doTasks_loop.simps) (simp add: Let_def)
    qed
  qed
qed

lemma doTasks_loop_preserves:
  assumes init: "Q m"
    and strip: "\<And>m. Q m \<Longrightarrow> Q (m\<lparr>tasks := filter (\<lambda>t. \<not> canceled t) (tasks m)\<rparr>)"
    and idle: "\<And>m. Q m \<Longrightarrow> doingTasks m
                 \<Longrightarrow> Q (sendEvent (global_event GLOBAL_EVENT_NOTBUSY) (m\<lparr>doingTasks := False\<rparr>))"
    and busy: "\<And>m. Q m \<Longrightarrow> \<not> doingTasks m
                 \<Longrightarrow> Q (sendEvent (global_event GLOBAL_EVENT_BUSY) (m\<lparr>doingTasks := True\<rparr>))"
    and body: "\<And>m i st m'. Q m \<Longrightarrow> doingTasks m \<Longrightarrow> i < length (tasks m)
                 \<Longrightarrow> \<not> canceled (tasks m ! i) \<Longrightarrow> \<not> failed (tasks m ! i)
                 \<Longrightarrow> first_nonfailed (tasks m) = Some i
                 \<Longrightarrow> doIt i m = (st, m') \<Longrightarrow> Q m'"
    and compl: "\<And>m i m0. Q m \<Longrightarrow> doIt i m0 = (Completed, m) \<Longrightarrow> Q (onComplete i m)"
  shows "Q (doTasks_loop m)"
proof (rule doTasks_loop_rule [where Q = Q and R = Q], goal_cases)
  case 1 show ?case by (rule init)
next
  case (2 m) then show ?case by (rule strip)
next
  case (3 m) then show ?case using idle by blast
next
  case (4 m) then show ?case by simp
next
  case (5 m) then show ?case by (rule busy)
next
  case (6 m i st m')
  then have "Q m'" using body by blast
  then show ?case using compl 6 by auto
qed

section \<open>One live task per bundle and type\<close>

lemma ids_upd_task:
  "(\<And>t. task_id (f t) = task_id t) \<Longrightarrow> ids (upd_task i f m) = ids m"
  by (simp add: ids_def upd_task_def map_update) (metis list_update_id map_update)

lemma ids_simps [simp]:
  "ids (sendEvent e m) = ids m" "ids (persist m) = ids m" "ids (setprop a p v m) = ids m"
  "ids (purgeEvents n m) = ids m" "ids (addLocalURL r en m) = ids m"
  "ids (removeLocalURL r m) = ids m"
  "ids (m\<lparr>requests := rq\<rparr>) = ids m" "ids (m\<lparr>running := c\<rparr>) = ids m"
  "ids (m\<lparr>doingTasks := b\<rparr>) = ids m"
  "ids (upd_task i (\<lambda>t. t\<lparr>ft := x\<rparr>) m) = ids m"
  "ids (upd_task i (\<lambda>t. t\<lparr>failed := y, error := z, retry := w\<rparr>) m) = ids m"
  by (simp_all add: ids_def ids_upd_task [unfolded ids_def] task_id_def)

lemma downloadBundle_error_ids:
  "downloadBundle_error d e r m = (st, m') \<Longrightarrow> ids m' = ids m"
  by (auto simp: downloadBundle_error_def Let_def split: if_splits option.splits)

lemma downloadBundle_loop_ids:
  "downloadBundle_loop d index m = (st, m') \<Longrightarrow> ids m' = ids m"
  by (auto simp: downloadBundle_loop_def Let_def dest: downloadBundle_error_ids
           split: if_splits option.splits)

lemma downloadBundle_ids: "downloadBundle i m = (st, m') \<Longrightarrow> ids m' = ids m"
  by (auto simp: downloadBundle_def dest!: downloadBundle_loop_ids split: option.splits)

lemma file_done_ids: "file_done d index m = (st, m') \<Longrightarrow> ids m' = ids m"
  by (auto simp: file_done_def Let_def dest!: downloadBundle_loop_ids
           split: if_splits option.splits)

lemma probe_missing_ids: "probe_missing d index r m = (st, m') \<Longrightarrow> ids m' = ids m"
  by (auto simp: probe_missing_def)

lemma start_transfer_ids: "start_transfer d index r e m = (st, m') \<Longrightarrow> ids m' = ids m"
  by (auto simp: start_transfer_def Let_def)

lemma onprogress_ids: "ids (onprogress d index e m) = ids m"
  by (auto simp: onprogress_def Let_def split: option.splits)

lemma downloadSuccess_ids: "downloadSuccess d index r e m = (st, m') \<Longrightarrow> ids m' = ids m"
  by (auto simp: downloadSuccess_def dest!: file_done_ids)

lemma downloadFail_ids: "downloadFail d c err m = (st, m') \<Longrightarrow> ids m' = ids m"
  by (auto simp: downloadFail_def Let_def dest!: downloadBundle_error_ids split: if_splits)

lemma removeBundleFiles_loop_ids:
  "removeBundleFiles_loop i b index m = (st, m') \<Longrightarrow> ids m' = ids m"
proof (induction i b index m rule: removeBundleFiles_loop.induct)
  case (1 i b index m)
  show ?case
    using "1.prems" "1.IH"
    by (subst (asm) removeBundleFiles_loop.simps)
       (auto split: if_splits option.splits bool.splits)
qed

lemma remove_found_ids: "remove_found i b index f e m = (st, m') \<Longrightarrow> ids m' = ids m"
  by (auto simp: remove_found_def Let_def)

lemma doIt_ids: "doIt i m = (st, m') \<Longrightarrow> ids m' = ids m"
  by (auto simp: doIt_def removeBundleFiles_def
           dest: downloadBundle_ids removeBundleFiles_loop_ids
           split: task_type.splits option.splits)

lemma live_unique_ids: "ids m' = ids m \<Longrightarrow> live_unique (tasks m') = live_unique (tasks m)"
proof -
  have k: "\<And>ts. map task_key (filter (\<lambda>t. \<not> canceled t) ts)
             = map (\<lambda>(n, ty, c, e). (n, ty)) (filter (\<lambda>(n, ty, c, e). \<not> c) (map task_id ts))"
    by (induct_tac ts) (simp_all add: task_key_def task_id_def)
  assume "ids m' = ids m"
  then show ?thesis by (simp add: live_unique_def k ids_def)
qed

lemma live_unique_filter: "live_unique ts \<Longrightarrow> live_unique (filter Q ts)"
proof -
  have "filter (\<lambda>t. \<not> canceled t) (filter Q ts) = filter Q (filter (\<lambda>t. \<not> canceled t) ts)"
    by (induction ts) auto
  moreover assume "live_unique ts"
  ultimately show "live_unique (filter Q ts)"
    unfolding live_unique_def
    using distinct_map_filter [of task_key "filter (\<lambda>t. \<not> canceled t) ts" Q] by simp
qed

lemma splice1_simps [simp]:
  "splice1 i [] = []" "splice1 0 (x # xs) = xs" "splice1 (Suc i) (x # xs) = x # splice1 i xs"
  by (simp_all add: splice1_def)

lemma set_splice1: "set (splice1 i xs) \<subseteq> set xs"
  unfolding splice1_def using set_take_subset [of i xs] set_drop_subset [of "Suc i" xs] by auto

lemma live_unique_Cons:
  "live_unique (x # xs) \<longleftrightarrow>
     live_unique xs \<and> (canceled x \<or> task_key x \<notin> task_key ` {t \<in> set xs. \<not> canceled t})"
  by (auto simp: live_unique_def)

lemma live_unique_splice1: "live_unique ts \<Longrightarrow> live_unique (splice1 i ts)"
proof (induction ts arbitrary: i)
  case Nil
  then show ?case by simp
next
  case (Cons x xs)
  show ?case
  proof (cases i)
    case 0
    then show ?thesis using Cons.prems by (simp add: live_unique_Cons)
  next
    case (Suc j)
    have "live_unique (splice1 j xs)" using Cons by (simp add: live_unique_Cons)
    moreover have "{t \<in> set (splice1 j xs). \<not> canceled t} \<subseteq> {t \<in> set xs. \<not> canceled t}"
      using set_splice1 [of j xs] by auto
    ultimately show ?thesis using Cons.prems Suc by (auto simp: live_unique_Cons)
  qed
qed

lemma live_unique_cancel:
  "live_unique ts \<Longrightarrow> live_unique (ts[i := (ts ! i)\<lparr>canceled := True\<rparr>])"
proof (induction ts arbitrary: i)
  case Nil
  then show ?case by simp
next
  case (Cons x xs)
  show ?case
  proof (cases i)
    case 0
    then show ?thesis using Cons.prems by (simp add: live_unique_Cons)
  next
    case (Suc j)
    have "live_unique (xs[j := (xs ! j)\<lparr>canceled := True\<rparr>])"
      using Cons by (simp add: live_unique_Cons)
    moreover have "{t \<in> set (xs[j := (xs ! j)\<lparr>canceled := True\<rparr>]). \<not> canceled t}
                    \<subseteq> {t \<in> set xs. \<not> canceled t}"
      using set_update_subset_insert [of xs j "(xs ! j)\<lparr>canceled := True\<rparr>"] by auto
    ultimately show ?thesis using Cons.prems Suc by (auto simp: live_unique_Cons)
  qed
qed

lemma live_unique_append_new:
  assumes "live_unique ts"
    and "\<not> (\<exists>t \<in> set ts. bundleName t = n \<and> type t = ty \<and> \<not> canceled t)"
  shows "live_unique (ts @ [Task n ty ex])"
  using assms unfolding live_unique_def
  by (auto simp: task_key_def Task_def)

lemma live_unique_rearm: "live_unique ts \<Longrightarrow> live_unique (map rearm ts)"
proof -
  have f: "filter (\<lambda>t. \<not> canceled t) (map rearm ts)
           = map rearm (filter (\<lambda>t. \<not> canceled t) ts)"
    by (induction ts) (simp_all add: rearm_def)
  have k: "task_key \<circ> rearm = task_key"
    by (auto simp: rearm_def task_key_def fun_eq_iff)
  show "live_unique ts \<Longrightarrow> ?thesis"
    unfolding live_unique_def f map_map k .
qed

lemma alloc_sel [simp]:
  "bundles (snd (alloc ob m)) = bundles m" "localURLs (snd (alloc ob m)) = localURLs m"
  "tasks (snd (alloc ob m)) = tasks m" "doingTasks (snd (alloc ob m)) = doingTasks m"
  "eventQueue (snd (alloc ob m)) = eventQueue m" "eventTimer (snd (alloc ob m)) = eventTimer m"
  "storage (snd (alloc ob m)) = storage m" "running (snd (alloc ob m)) = running m"
  "requests (snd (alloc ob m)) = requests m" "delivered (snd (alloc ob m)) = delivered m"
  "fst (alloc ob m) = hnext m" "hnext (snd (alloc ob m)) = Suc (hnext m)"
  "heap (snd (alloc ob m)) = (heap m)(hnext m \<mapsto> ob)"
  by (simp_all add: alloc_def)

text \<open>What a copy leaves alone: everything but the heap, and the heap below \<open>hnext\<close>.\<close>

lemma frame_refl [simp]: "frame m m"
  by (simp add: frame_def)

lemma frame_trans: "frame m m1 \<Longrightarrow> frame m1 m2 \<Longrightarrow> frame m m2"
  by (auto simp: frame_def)

lemma frame_alloc [simp]: "frame m (snd (alloc ob m))"
  by (simp add: frame_def)

lemma frame_setprop: "frame m m1 \<Longrightarrow> hnext m \<le> c \<Longrightarrow> frame m (setprop c p v m1)"
  by (auto simp: frame_def setprop_def split: option.splits jsobj.splits)

lemma js_slice_cases:
  assumes "js_slice h v m = Some (x, m')"
  obtains (string) str where "v = JStr str" and "x = JStr str" and "m' = m"
    | (array) xs where "arr_of h v = Some xs" and "x = JRef (hnext m)"
        and "m' = snd (alloc (JArray xs) m)"
proof (cases "\<exists>str. v = JStr str")
  case True
  then show ?thesis using assms string by (auto simp: js_slice_def)
next
  case False
  then have "js_slice h v m
               = (case arr_of h v of
                    None \<Rightarrow> None
                  | Some xs \<Rightarrow> Some (JRef (hnext m), snd (alloc (JArray xs) m)))"
    by (cases v) (simp_all add: js_slice_def split_beta alloc_def split: option.splits)
  then show ?thesis using assms array by (auto split: option.splits)
qed

lemma js_slice_frame: "js_slice h v m = Some (x, m') \<Longrightarrow> frame m m'"
  by (erule js_slice_cases) simp_all

lemma copyBundle_frame: "frame m (snd (copyBundle b m))"
proof (cases "js_slice (heap m) (getprop (heap m) b ''files'') m")
  case None
  then show ?thesis by (simp add: copyBundle_def)
next
  case (Some r)
  obtain fv m1 where r: "r = (fv, m1)" by (cases r)
  let ?ob = "JObject [(''name'', getprop (heap m) b ''name''), (''files'', fv)]"
  let ?m2 = "snd (alloc ?ob m1)"
  let ?sz = "getprop (heap m) b ''fileSizes''"
  have f1: "frame m m1" using Some r js_slice_frame by blast
  have f2: "frame m ?m2" using f1 frame_alloc frame_trans by blast
  have c: "hnext m \<le> hnext m1" using f1 by (simp add: frame_def)
  show ?thesis
  proof (cases "truthy ?sz")
    case False
    then show ?thesis using Some r f2 by (simp add: copyBundle_def split_beta)
  next
    case True
    show ?thesis
    proof (cases "js_slice (heap m) ?sz ?m2")
      case None
      then show ?thesis using Some r True f2 by (simp add: copyBundle_def split_beta)
    next
      case s2: (Some r2)
      obtain sv m3 where r2: "r2 = (sv, m3)" by (cases r2)
      have "frame m m3" using f2 s2 r2 js_slice_frame frame_trans by blast
      then have "frame m (setprop (hnext m1) ''fileSizes'' sv m3)" using c by (rule frame_setprop)
      then show ?thesis using Some r True s2 r2 by (simp add: copyBundle_def split_beta)
    qed
  qed
qed

lemma copyBundle_sel [simp]:
  "bundles (snd (copyBundle b m)) = bundles m" "localURLs (snd (copyBundle b m)) = localURLs m"
  "tasks (snd (copyBundle b m)) = tasks m" "doingTasks (snd (copyBundle b m)) = doingTasks m"
  "eventQueue (snd (copyBundle b m)) = eventQueue m"
  "eventTimer (snd (copyBundle b m)) = eventTimer m"
  "storage (snd (copyBundle b m)) = storage m" "running (snd (copyBundle b m)) = running m"
  "requests (snd (copyBundle b m)) = requests m" "delivered (snd (copyBundle b m)) = delivered m"
  using copyBundle_frame [of m b] by (simp_all add: frame_def)

text \<open>The copy that \<open>_copyBundle\<close> returns: a new object that carries the name.\<close>

lemma copyBundle_Inr:
  assumes "copyBundle b m = (Inr c, m')"
  shows "hnext m \<le> c" and "c < hnext m'"
    and "\<exists>ps. heap m' c = Some (JObject ps)
              \<and> map_of ps ''name'' = Some (getprop (heap m) b ''name'')"
proof -
  from assms obtain fv m1 where s1: "js_slice (heap m) (getprop (heap m) b ''files'') m = Some (fv, m1)"
    by (cases "js_slice (heap m) (getprop (heap m) b ''files'') m") (auto simp: copyBundle_def)
  let ?ob = "JObject [(''name'', getprop (heap m) b ''name''), (''files'', fv)]"
  let ?m2 = "snd (alloc ?ob m1)"
  let ?sz = "getprop (heap m) b ''fileSizes''"
  have f1: "frame m m1" using s1 js_slice_frame by blast
  then have h1: "hnext m \<le> hnext m1" by (simp add: frame_def)
  have all: "c = hnext m1 \<and> c < hnext m'
             \<and> (\<exists>ps. heap m' c = Some (JObject ps)
                    \<and> map_of ps ''name'' = Some (getprop (heap m) b ''name''))"
  proof (cases "truthy ?sz")
    case False
    then have "c = hnext m1" "m' = ?m2" using assms s1 by (auto simp: copyBundle_def split_beta)
    then show ?thesis by simp
  next
    case True
    then obtain sv m3 where s2: "js_slice (heap m) ?sz ?m2 = Some (sv, m3)"
      using assms s1
      by (cases "js_slice (heap m) ?sz ?m2") (auto simp: copyBundle_def split_beta)
    have r: "c = hnext m1" "m' = setprop (hnext m1) ''fileSizes'' sv m3"
      using assms s1 True s2 by (auto simp: copyBundle_def split_beta)
    have f3: "frame ?m2 m3" using s2 by (rule js_slice_frame)
    then have h3: "heap m3 (hnext m1) = Some ?ob" "hnext m1 < hnext m3"
      by (simp_all add: frame_def)
    show ?thesis
      unfolding r using h3 by (simp add: setprop_def update_conv')
  qed
  show "hnext m \<le> c" using all h1 by simp
  show "c < hnext m'" using all by simp
  show "\<exists>ps. heap m' c = Some (JObject ps)
              \<and> map_of ps ''name'' = Some (getprop (heap m) b ''name'')"
    using all by blast
qed

lemma copyBundle_tasks: "copyBundle b m = (r, m') \<Longrightarrow> tasks m' = tasks m"
  using copyBundle_sel(3) [of b m] by simp

lemma doTasks_loop_live:
  assumes "live_unique (tasks m0)"
  shows "live_unique (tasks (doTasks_loop m0))"
proof (rule doTasks_loop_preserves [where Q = "\<lambda>m. live_unique (tasks m)", OF assms],
       goal_cases)
  case (1 m) then show ?case by (simp add: live_unique_filter)
next
  case (2 m) then show ?case by simp
next
  case (3 m) then show ?case by simp
next
  case (4 m i st m') then show ?case using doIt_ids live_unique_ids by blast
next
  case (5 m i m0) then show ?case by (simp add: onComplete_def Let_def live_unique_splice1)
qed

lemma onComplete_live: "live_unique (tasks m) \<Longrightarrow> live_unique (tasks (onComplete i m))"
  by (simp add: onComplete_def Let_def live_unique_splice1)

lemma resume_live:
  "live_unique (tasks m) \<Longrightarrow> ids m' = ids m \<Longrightarrow> live_unique (tasks (resume i (st, m')))"
  using live_unique_ids [of m' m]
  by (cases st) (simp_all add: resume_def doTasks_loop_live onComplete_live)

lemma doTasks_live: "live_unique (tasks m) \<Longrightarrow> live_unique (tasks (doTasks m))"
  by (simp add: doTasks_def doTasks_loop_live)

lemma maybeAddTask_live: "live_unique (tasks m) \<Longrightarrow> live_unique (tasks (maybeAddTask n ty ex m))"
  by (auto simp: maybeAddTask_def intro!: doTasks_live live_unique_append_new)

lemma kickStartTasks_live: "live_unique (tasks m) \<Longrightarrow> live_unique (tasks (kickStartTasks m))"
  by (auto simp: kickStartTasks_def intro!: doTasks_live live_unique_rearm)

lemma cancelTask_live: "live_unique (tasks m) \<Longrightarrow> live_unique (tasks (cancelTask n ty m))"
  by (rule cancelTask_invariant [where P = "\<lambda>m. live_unique (tasks m)"])
     (simp_all add: abort_tasks live_unique_cancel)

lemma addBundle_live: "live_unique (tasks m) \<Longrightarrow> live_unique (tasks (snd (addBundle b m)))"
proof -
  assume a: "live_unique (tasks m)"
  show ?thesis
    using a
    by (auto simp: addBundle_def Let_def
             split: sum.splits bool.splits jsval.splits prod.splits
             dest: copyBundle_tasks
             intro!: maybeAddTask_live cancelTask_live)
qed

lemma removeBundle_live: "live_unique (tasks m) \<Longrightarrow> live_unique (tasks (removeBundle n m))"
  by (auto simp: removeBundle_def Let_def split: option.splits
           intro!: maybeAddTask_live cancelTask_live)

lemma getBundle_tasks [simp]: "tasks (snd (getBundle n m)) = tasks m"
proof (cases "map_of (bundles m) n")
  case None
  then show ?thesis by (simp add: getBundle_def)
next
  case (Some b)
  then show ?thesis
    by (auto simp: getBundle_def split: prod.splits sum.splits dest: copyBundle_tasks)
qed

lemma handle_ids: "handle inp c m = Some (st, m') \<Longrightarrow> ids m' = ids m"
proof -
  have n: "ids (m\<lparr>running := None\<rparr>) = ids m" by simp
  assume "handle inp c m = Some (st, m')"
  then show ?thesis
    using n
    by (auto simp: handle_def onprogress_ids split: cont.splits input.splits
             dest!: file_done_ids probe_missing_ids start_transfer_ids downloadBundle_error_ids
                    downloadSuccess_ids downloadFail_ids remove_found_ids
                    removeBundleFiles_loop_ids)
qed

lemma callback_live:
  assumes "live_unique (tasks m)"
  shows "live_unique (tasks (callback inp c m))"
proof (cases "handle inp c m")
  case None
  then show ?thesis using assms by (simp add: callback_def)
next
  case (Some r)
  obtain st m' where r: "r = (st, m')" by (cases r)
  have "ids m' = ids m" using Some r handle_ids by blast
  then show ?thesis using assms Some r by (simp add: callback_def resume_live)
qed

lemma step_live: "live_unique (tasks m) \<Longrightarrow> live_unique (tasks (step inp m))"
  by (cases inp)
     (auto simp: step_def flushEvents_def addBundle_live removeBundle_live kickStartTasks_live
           callback_live split: option.splits)

lemma run_live: "live_unique (tasks m) \<Longrightarrow> live_unique (tasks (run inps m))"
  unfolding run_def by (induction inps arbitrary: m) (simp_all add: step_live)

lemma distinct_key_filter_le1:
  "distinct (map f xs) \<Longrightarrow> length (filter (\<lambda>x. f x = k) xs) \<le> 1"
proof (induction xs)
  case Nil
  then show ?case by simp
next
  case (Cons x xs)
  show ?case
  proof (cases "f x = k")
    case True
    then have "filter (\<lambda>x. f x = k) xs = []"
      using Cons.prems by (auto simp: filter_empty_conv image_iff)
    then show ?thesis using True by simp
  next
    case False
    then show ?thesis using Cons by simp
  qed
qed

lemma live_unique_count: "live_unique ts \<Longrightarrow> live_count ts n ty \<le> 1"
proof -
  assume "live_unique ts"
  then have "length (filter (\<lambda>t. task_key t = (n, ty)) (filter (\<lambda>t. \<not> canceled t) ts)) \<le> 1"
    unfolding live_unique_def by (rule distinct_key_filter_le1)
  moreover have "filter (\<lambda>t. task_key t = (n, ty)) (filter (\<lambda>t. \<not> canceled t) ts)
                 = filter (\<lambda>t. bundleName t = n \<and> type t = ty \<and> \<not> canceled t) ts"
    by (induction ts) (auto simp: task_key_def)
  ultimately show ?thesis by (simp add: live_count_def)
qed

lemma live_count_pos:
  "0 < live_count ts n ty \<longleftrightarrow> (\<exists>t \<in> set ts. bundleName t = n \<and> type t = ty \<and> \<not> canceled t)"
  by (auto simp: live_count_def filter_empty_conv)

text \<open>
  C4.  At every point of an execution that starts from a fresh manager, the task list holds at
  most one live (non-canceled) task for each bundle name and type; every step keeps it so from
  any task list that has the property, in particular \<open>addBundle\<close> for a bundle whose Load task
  is queued; and \<open>_maybeAddTask\<close> for a name and type that have a live task returns the manager
  as it is, the task list not grown.
\<close>

theorem task_dedup:
  "live_count (tasks (run inps DAM)) n ty \<le> 1
   \<and> (live_unique (tasks m) \<longrightarrow>
        live_unique (tasks (step inp m)) \<and> live_count (tasks (step inp m)) n ty \<le> 1
        \<and> live_count (tasks (snd (addBundle bundle m))) n TASK_TYPE_LOAD \<le> 1)
   \<and> (0 < live_count (tasks m) n ty \<longrightarrow> maybeAddTask n ty ex m = m)"
proof (intro conjI impI)
  have "live_unique (tasks DAM)" by (simp add: DAM_def live_unique_def)
  then show "live_count (tasks (run inps DAM)) n ty \<le> 1"
    by (intro live_unique_count run_live)
next
  assume a: "live_unique (tasks m)"
  then show "live_unique (tasks (step inp m))" by (rule step_live)
  then show "live_count (tasks (step inp m)) n ty \<le> 1" by (rule live_unique_count)
  show "live_count (tasks (snd (addBundle bundle m))) n TASK_TYPE_LOAD \<le> 1"
    using a by (intro live_unique_count addBundle_live)
next
  assume "0 < live_count (tasks m) n ty"
  then show "maybeAddTask n ty ex m = m"
    by (simp add: live_count_pos maybeAddTask_def)
qed

lemma tasks_b1:
  "tasks (run b1_inputs DAM) = [Task ''b1'' TASK_TYPE_LOAD None]"
  by (simp add: b1_inputs_def eval_defs)

text \<open>The theorem after \<open>b1\<close> has been added: its Load task is live, a second request for it is
  dropped, and adding the bundle again leaves one live Load task.\<close>

theorem task_dedup_witness:
  "live_unique (tasks (run b1_inputs DAM))
   \<and> 0 < live_count (tasks (run b1_inputs DAM)) ''b1'' TASK_TYPE_LOAD
   \<and> maybeAddTask ''b1'' TASK_TYPE_LOAD None (run b1_inputs DAM) = run b1_inputs DAM
   \<and> live_count (tasks (snd (addBundle (JRef 1) (run b1_inputs DAM)))) ''b1'' TASK_TYPE_LOAD \<le> 1"
proof -
  have u: "live_unique (tasks (run b1_inputs DAM))"
    by (simp add: tasks_b1 live_unique_def)
  have p: "0 < live_count (tasks (run b1_inputs DAM)) ''b1'' TASK_TYPE_LOAD"
    by (simp add: tasks_b1 live_count_def Task_def)
  note t = task_dedup [of "[]" "''b1''" TASK_TYPE_LOAD "run b1_inputs DAM" "AddBundle (JRef 1)"
                          "JRef 1" None]
  from t u p show ?thesis by blast
qed

section \<open>Busy and not busy\<close>


lemma gtrace_simps [simp]:
  "gtrace (sendEvent e m) = (if name e = None then gtrace m @ [event e] else gtrace m)"
  "gtrace (persist m) = gtrace m" "gtrace (setprop a p v m) = gtrace m"
  "gtrace (purgeEvents n m) = gtrace m" "gtrace (upd_task i f m) = gtrace m"
  "gtrace (addLocalURL r en m) = gtrace m" "gtrace (removeLocalURL r m) = gtrace m"
  "gtrace (flushEvents m) = gtrace m"
  "gtrace (m\<lparr>requests := rq\<rparr>) = gtrace m" "gtrace (m\<lparr>running := c\<rparr>) = gtrace m"
  "gtrace (m\<lparr>doingTasks := b\<rparr>) = gtrace m" "gtrace (m\<lparr>tasks := ts\<rparr>) = gtrace m"
  "gtrace (m\<lparr>heap := h\<rparr>) = gtrace m" "gtrace (m\<lparr>bundles := bs\<rparr>) = gtrace m"
  "gtrace (snd (alloc ob m)) = gtrace m"
proof -
  have "filter (\<lambda>e. name e = None) (filter (\<lambda>e. name e \<noteq> Some n) (eventQueue m))
        = filter (\<lambda>e. name e = None) (eventQueue m)"
    by (induction "eventQueue m") (auto intro: filter_cong)
  then show "gtrace (purgeEvents n m) = gtrace m"
    by (simp add: gtrace_def purgeEvents_def)
qed (auto simp: gtrace_def sendEvent_def flushEvents_def alloc_def)

lemma name_events [simp]:
  "name (global_event k) = None" "event (global_event k) = k"
  "name (bundle_event k n) = Some n" "name (progress_ev n x) = Some n"
  "name (error_ev n er) = Some n"
  by (simp_all add: global_event_def bundle_event_def progress_ev_def error_ev_def)















lemma onComplete_sel [simp]:
  "gtrace (onComplete i m) = gtrace m" "doingTasks (onComplete i m) = doingTasks m"
  "running (onComplete i m) = running m"
  by (simp_all add: onComplete_def Let_def)



lemma onprogress_quiet: "quiet m (Waiting, onprogress d index e (m\<lparr>running := Some c\<rparr>))"
  by (auto simp: quiet_def onprogress_def Let_def split: option.splits)












lemma busy_inv_upd [simp]:
  "busy_inv (m\<lparr>bundles := bs\<rparr>) = busy_inv m" "busy_inv (persist m) = busy_inv m"
  "busy_inv (setprop a p v m) = busy_inv m" "busy_inv (m\<lparr>heap := h\<rparr>) = busy_inv m"
  "busy_inv (snd (alloc ob m)) = busy_inv m" "busy_inv (flushEvents m) = busy_inv m"
  by (simp_all add: busy_inv_def)









section \<open>Malformed bundles\<close>

lemma typeof_undefined: "typeof v = TUndefined \<longleftrightarrow> v = JUndefined"
  by (cases v) simp_all

lemma typeof_string: "typeof v = TString \<longleftrightarrow> (\<exists>s. v = JStr s)"
  by (cases v) simp_all

lemma malformedBundle_spec:
  "malformedBundle h bundle =
     (if bundle = JNull then Inl TypeError else Inr (\<not> spec_wellformed h bundle))"
  by (cases "bundle")
     (auto simp: malformedBundle_def spec_wellformed_def typeof_undefined list_all_iff
           split: option.splits)

lemma arr_of_truthy: "arr_of h v = Some xs \<Longrightarrow> truthy v \<and> (\<forall>s. v \<noteq> JStr s)"
  by (cases v) (simp_all add: arr_of_def)

lemma copyBundle_wellformed:
  assumes "spec_wellformed (heap m) bundle"
  shows "\<exists>c. fst (copyBundle bundle m) = Inr c"
proof -
  from assms obtain a where a: "bundle = JRef a"
    by (cases "bundle") (simp_all add: spec_wellformed_def)
  from assms a obtain fs where fs: "arr_of (heap m) (getprop (heap m) bundle ''files'') = Some fs"
    by (auto simp: spec_wellformed_def split: option.splits)
  let ?sz = "getprop (heap m) bundle ''fileSizes''"
  from assms a fs have sz: "?sz = JUndefined \<or> (\<exists>xs. arr_of (heap m) ?sz = Some xs)"
    by (auto simp: spec_wellformed_def split: option.splits)
  have s1: "\<exists>r. js_slice (heap m) (getprop (heap m) bundle ''files'') m = Some r"
    using fs arr_of_truthy [OF fs]
    by (cases "getprop (heap m) bundle ''files''") (simp_all add: js_slice_def split_beta)
  have s2: "\<exists>r. js_slice (heap m) ?sz m' = Some r" if "truthy ?sz" for m'
  proof -
    from sz that obtain xs where xs: "arr_of (heap m) ?sz = Some xs" by auto
    then show ?thesis
      using arr_of_truthy [OF xs] by (cases ?sz) (simp_all add: js_slice_def split_beta)
  qed
  from s1 obtain fv m1 where r1: "js_slice (heap m) (getprop (heap m) bundle ''files'') m = Some (fv, m1)"
    by auto
  show ?thesis
  proof (cases "truthy ?sz")
    case False
    then show ?thesis using r1 by (simp add: copyBundle_def split_beta)
  next
    case True
    let ?m2 = "snd (alloc (JObject [(''name'', getprop (heap m) bundle ''name''), (''files'', fv)]) m1)"
    from s2 [OF True, of ?m2] obtain sv m3 where "js_slice (heap m) ?sz ?m2 = Some (sv, m3)" by auto
    then show ?thesis using r1 True by (simp add: copyBundle_def split_beta)
  qed
qed

text \<open>Every value that is not a well-formed bundle is refused before anything is changed; the
  error is the string of the library for every such value but \<open>null\<close>.\<close>

lemma addBundle_refuses:
  "\<not> spec_wellformed (heap m) bundle \<Longrightarrow>
   addBundle bundle m
     = (Inl (if bundle = JNull then TypeError
             else Thrown ''Malformed bundle passed to addBundle''), m)"
  by (simp add: addBundle_def malformedBundle_spec)

lemma addBundle_refuses_mismatch:
  "addBundle (JRef 2) (run mismatch_inputs DAM)
     = (Inl (Thrown ''Malformed bundle passed to addBundle''), run mismatch_inputs DAM)"
proof -
  have "\<not> spec_wellformed (heap (run mismatch_inputs DAM)) (JRef 2)"
    by (simp add: mismatch_inputs_def run_def step_def alloc_def DAM_def spec_wellformed_def
          getprop_def arr_of_def)
  then show ?thesis using addBundle_refuses by simp
qed

text \<open>
  C5.  The claim has \<open>addBundle\<close> fail with the structural error on every malformed input.
  \<open>null\<close> is malformed (it has no name), but \<open>_malformedBundle\<close> tests
  \<open>typeof(bundle) != 'object'\<close> first, and \<open>typeof null\<close> is \<open>'object'\<close>: the next test reads
  \<open>bundle.name\<close> of \<open>null\<close>, which raises a \<open>TypeError\<close>.  So \<open>addBundle(null)\<close> leaves the manager
  unchanged, as the claim says, and raises a \<open>TypeError\<close>, where the claim and the
  \<open>@throws {string}\<close> of \<open>addBundle\<close> have the string \<open>Malformed bundle passed to addBundle\<close>.
\<close>

theorem addBundle_null_raises_TypeError:
  "\<not> spec_wellformed (heap m) JNull
   \<and> addBundle JNull m = (Inl TypeError, m)
   \<and> addBundle JNull m \<noteq> (Inl (Thrown ''Malformed bundle passed to addBundle''), m)"
  by (simp add: addBundle_def malformedBundle_def spec_wellformed_def)

section \<open>Transport failures\<close>





section \<open>The local URL map\<close>

lemma localURLs_doTasks_loop [simp]: "localURLs (doTasks_loop m0) = localURLs m0"
proof (rule doTasks_loop_preserves [where Q = "\<lambda>m. localURLs m = localURLs m0", OF refl],
       goal_cases)
  case (1 m) then show ?case by simp
next
  case (2 m) then show ?case by simp
next
  case (3 m) then show ?case by simp
next
  case (4 m i st m')
  have "localURLs (snd (removeBundleFiles_loop i b index m)) = localURLs m" for i b index m
  proof (induction i b index m rule: removeBundleFiles_loop.induct)
    case (1 i b index m)
    show ?case
      using "1.IH"
      by (subst removeBundleFiles_loop.simps) (auto split: option.splits bool.splits)
  qed
  moreover have "localURLs (snd (downloadBundle i m)) = localURLs m" for i m
    by (auto simp: downloadBundle_def downloadBundle_loop_def downloadBundle_error_def Let_def
             split: option.splits)
  ultimately have "localURLs (snd (doIt i m)) = localURLs m"
    by (simp add: doIt_def removeBundleFiles_def split: task_type.splits option.splits)
  then show ?case using 4 by simp
next
  case (5 m i m0) then show ?case by (simp add: onComplete_def Let_def)
qed

lemma addLocalURL_keeps:
  "map_of (localURLs m) r = Some u \<Longrightarrow> map_of (localURLs (addLocalURL r' e m)) r = Some u"
  by (auto simp: addLocalURL_def hasOwnProperty_def update_conv')

lemma removeLocalURL_other:
  "r' \<noteq> r \<Longrightarrow> map_of (localURLs (removeLocalURL r' m)) r = map_of (localURLs m) r"
  by (simp add: removeLocalURL_def delete_conv')

lemma removeLocalURL_same: "map_of (localURLs (removeLocalURL r m)) r = None"
  by (auto simp: removeLocalURL_def delete_conv' hasOwnProperty_def)

lemma localURL_mapped: "map_of (localURLs m) r = Some u \<Longrightarrow> localURL m r = JStr u"
  by (simp add: localURL_def)

lemma localURL_unmapped:
  "map_of (localURLs m) r = None \<Longrightarrow> r \<notin> set Object_prototype \<Longrightarrow> localURL m r = JUndefined"
  by (simp add: localURL_def)

text \<open>
  C10.  The claim ends with "\<open>localURL\<close> of an unmapped identifier is absent".  \<open>localURL\<close>
  reads \<open>this.localURLs[remoteFile]\<close> without the \<open>hasOwnProperty\<close> test that \<open>_addLocalURL\<close>,
  \<open>_removeLocalURL\<close> and \<open>getBundle\<close> make, so for an identifier that names a member of
  \<open>Object.prototype\<close> the lookup finds the inherited member: on a fresh manager, where nothing
  is mapped, \<open>localURL("toString")\<close> is a function, not \<open>undefined\<close>.
\<close>

theorem localURL_inherited_member:
  "map_of (localURLs DAM) ''toString'' = None
   \<and> localURL DAM ''toString'' = JFunction ''toString''"
  by (simp add: DAM_def localURL_def Object_prototype_def)

section \<open>Copies of bundle records\<close>

text \<open>
  C1.  The claim has \<open>getBundle\<close> return a record with \<open>loaded = false\<close>.  \<open>getBundle\<close>
  returns \<open>_copyBundle\<close> of the stored record, and \<open>_copyBundle\<close> copies \<open>name\<close>, \<open>files\<close> and
  \<open>fileSizes\<close> only: after \<open>b1\<close> is added, the stored record has \<open>loaded = false\<close>
  (\<open>bundleLoaded\<close> reads it) and the files as passed in, and the record \<open>getBundle("b1")\<close>
  returns has the same files and no \<open>loaded\<close> property at all.
\<close>

theorem getBundle_drops_loaded:
  "fst (getBundle ''b1'' (run b1_inputs DAM)) = Inr (JRef 5)
   \<and> getprop (heap (snd (getBundle ''b1'' (run b1_inputs DAM)))) (JRef 5) ''loaded'' = JUndefined
   \<and> arr_of (heap (snd (getBundle ''b1'' (run b1_inputs DAM))))
        (getprop (heap (snd (getBundle ''b1'' (run b1_inputs DAM)))) (JRef 5) ''files'')
      = Some [JStr ''http://x/f1.png'']
   \<and> bundleLoaded (run b1_inputs DAM) ''b1'' = JBool False"
  by (simp add: b1_inputs_def bundleLoaded_def eval_defs)

section \<open>Removing the files of a bundle\<close>

lemma scan_bundles_referenced:
  assumes "\<forall>(k, a) \<in> set bs. arr_of h (getprop h (JRef a) ''files'') \<noteq> None"
  shows "scan_bundles h bname f bs
         = Some (\<exists>(k, a) \<in> set bs.
                   k \<noteq> bname
                   \<and> (case arr_of h (getprop h (JRef a) ''files'') of
                         Some files \<Rightarrow> JStr f \<in> set files
                       | None \<Rightarrow> False))"
  using assms
proof (induction bs)
  case Nil
  then show ?case by simp
next
  case (Cons x bs)
  obtain k a where x: "x = (k, a)" by (cases x)
  from Cons.prems x obtain files where
    fs: "arr_of h (getprop h (JRef a) ''files'') = Some files" by auto
  have ih: "scan_bundles h bname f bs
         = Some (\<exists>(k, a) \<in> set bs.
                   k \<noteq> bname
                   \<and> (case arr_of h (getprop h (JRef a) ''files'') of
                         Some files \<Rightarrow> JStr f \<in> set files
                       | None \<Rightarrow> False))"
    using Cons by simp
  show ?case using x fs ih by auto
qed

lemma scan_referenced_elsewhere:
  "registry_readable m \<Longrightarrow>
   scan_bundles (heap m) bname f (bundles m) = Some (referenced_elsewhere m bname f)"
  unfolding registry_readable_def referenced_elsewhere_def
  by (rule scan_bundles_referenced)

text \<open>
  What the loop of a Remove task that is not canceled does at a file of the removed bundle's
  snapshot: if another registered bundle lists the file, it goes on with the next file from
  the very same state; otherwise it asks for the local file by its computed name and waits.
\<close>

lemma removeBundleFiles_loop_at_file:
  assumes "registry_readable m" and "\<not> canceled (tasks m ! i)"
    and "bundle_view (heap m) b = Some v" and "index < length (b_files v)"
  shows
    "(referenced_elsewhere m (b_name v) (b_files v ! index) \<longrightarrow>
        removeBundleFiles_loop i b index m = removeBundleFiles_loop i b (Suc index) m)
     \<and> (\<not> referenced_elsewhere m (b_name v) (b_files v ! index) \<longrightarrow>
          removeBundleFiles_loop i b index m
            = (Waiting,
               m\<lparr>requests := requests m @ [GetFile (localFileName (b_files v ! index)) False],
                 running := Some (RmGetFile i b index (b_files v ! index))\<rparr>))"
  using assms
  by (subst removeBundleFiles_loop.simps, simp add: scan_referenced_elsewhere)+

lemma shared_registry:
  "bundles (run shared_inputs DAM) = [(''A'', 4), (''B'', 6)]"
  "localURLs (run shared_inputs DAM) = [(''http://x/f1.png'', ''file:///assets/f1'')]"
  "tasks (run shared_inputs DAM) = []"
  by (simp_all add: shared_inputs_def file1_def eval_defs)

text \<open>Two bundles share a file and both are loaded.  Removing \<open>A\<close> asks nothing of the file
  system and keeps the local URL; removing \<open>B\<close> afterwards asks for the local file, and when
  the file system finds it, its removal is requested and the local URL is dropped.\<close>

lemma remove_shared_then_last:
  "requests (run (shared_inputs @ [RemoveBundle ''A'']) DAM) = requests (run shared_inputs DAM)"
  "tasks (run (shared_inputs @ [RemoveBundle ''A'']) DAM) = []"
  "localURL (run (shared_inputs @ [RemoveBundle ''A'']) DAM) ''http://x/f1.png''
     = JStr ''file:///assets/f1''"
  "running (run (shared_inputs @ [RemoveBundle ''A'', RemoveBundle ''B'']) DAM)
     = Some (RmGetFile 0 6 0 ''http://x/f1.png'')"
  "last (requests (run (shared_inputs @ [RemoveBundle ''A'', RemoveBundle ''B'',
                                           GetFileSuccess file1]) DAM))
     = RemoveFile ''/assets/f1''"
  "localURL (run (shared_inputs @ [RemoveBundle ''A'', RemoveBundle ''B'',
                                    GetFileSuccess file1]) DAM) ''http://x/f1.png''
     = JUndefined"
  by (simp_all add: shared_inputs_def file1_def localURL_def Object_prototype_def eval_defs)

text \<open>
  C3.  The claim has a file that no other registered bundle references lose its cached local
  file and its entry in the local URL map.  \<open>_removeBundleFiles\<close> calls \<open>_removeLocalURL\<close> in
  the success callback of \<open>getFile\<close> only; when the file system does not find the local file
  the error callback is \<open>next\<close>, and the entry stays.  Bundle \<open>A\<close> with the single file
  \<open>http://x/f1.png\<close> is added, the file is downloaded and gets its local URL; \<open>A\<close> is removed,
  its Remove task asks for the local file (no other bundle lists the file), and the file
  system does not find it.  The task is done and the registry is empty, but \<open>localURL\<close> still
  answers with the URL of the file.  On the same run with the file found, the removal is
  requested and the URL is dropped.
\<close>

theorem remove_missing_file_keeps_url:
  "localURL (run loaded_A_inputs DAM) ''http://x/f1.png'' = JStr ''file:///assets/f1''
   \<and> running (run (loaded_A_inputs @ [RemoveBundle ''A'']) DAM)
       = Some (RmGetFile 0 3 0 ''http://x/f1.png'')
   \<and> bundles (run (loaded_A_inputs @ [RemoveBundle ''A'', GetFileError 1]) DAM) = []
   \<and> tasks (run (loaded_A_inputs @ [RemoveBundle ''A'', GetFileError 1]) DAM) = []
   \<and> running (run (loaded_A_inputs @ [RemoveBundle ''A'', GetFileError 1]) DAM) = None
   \<and> localURL (run (loaded_A_inputs @ [RemoveBundle ''A'', GetFileError 1]) DAM)
        ''http://x/f1.png''
       = JStr ''file:///assets/f1''
   \<and> last (requests (run (loaded_A_inputs @ [RemoveBundle ''A'', GetFileSuccess file1]) DAM))
       = RemoveFile ''/assets/f1''
   \<and> localURL (run (loaded_A_inputs @ [RemoveBundle ''A'', GetFileSuccess file1]) DAM)
        ''http://x/f1.png''
       = JUndefined"
proof -
  have a: "localURL (run loaded_A_inputs DAM) ''http://x/f1.png'' = JStr ''file:///assets/f1''"
    by (simp add: loaded_A_inputs_def file1_def localURL_def eval_defs)
  have b: "running (run (loaded_A_inputs @ [RemoveBundle ''A'']) DAM)
             = Some (RmGetFile 0 3 0 ''http://x/f1.png'')"
    by (simp add: loaded_A_inputs_def file1_def eval_defs)
  have c: "bundles (run (loaded_A_inputs @ [RemoveBundle ''A'', GetFileError 1]) DAM) = []"
    "tasks (run (loaded_A_inputs @ [RemoveBundle ''A'', GetFileError 1]) DAM) = []"
    "running (run (loaded_A_inputs @ [RemoveBundle ''A'', GetFileError 1]) DAM) = None"
    "localURL (run (loaded_A_inputs @ [RemoveBundle ''A'', GetFileError 1]) DAM)
        ''http://x/f1.png''
       = JStr ''file:///assets/f1''"
    by (simp_all add: loaded_A_inputs_def file1_def localURL_def eval_defs)
  have d: "last (requests (run (loaded_A_inputs @ [RemoveBundle ''A'', GetFileSuccess file1]) DAM))
             = RemoveFile ''/assets/f1''"
    "localURL (run (loaded_A_inputs @ [RemoveBundle ''A'', GetFileSuccess file1]) DAM)
        ''http://x/f1.png''
       = JUndefined"
    by (simp_all add: loaded_A_inputs_def file1_def localURL_def Object_prototype_def eval_defs)
  from a b c d show ?thesis by blast
qed

section \<open>A canceled Load task is silent\<close>

lemma nm_simps [simp]:
  "nm (heap (sendEvent e m)) a = nm (heap m) a" "nm (heap (persist m)) a = nm (heap m) a"
  "nm (heap (upd_task i f m)) a = nm (heap m) a" "nm (heap (addLocalURL r en m)) a = nm (heap m) a"
  "nm (heap (removeLocalURL r m)) a = nm (heap m) a"
  "nm (heap (setprop a' ''loaded'' v m)) a = nm (heap m) a"
  by (simp_all add: nm_def)
     (auto simp: setprop_def getprop_def update_conv' split: option.splits jsobj.splits)

lemma ids_record_upd [simp]:
  "ids (m\<lparr>eventQueue := q\<rparr>) = ids m" "ids (m\<lparr>eventTimer := b\<rparr>) = ids m"
  "ids (m\<lparr>heap := h\<rparr>) = ids m" "ids (m\<lparr>bundles := bs\<rparr>) = ids m"
  "ids (m\<lparr>storage := s\<rparr>) = ids m" "ids (m\<lparr>localURLs := l\<rparr>) = ids m"
  "ids (m\<lparr>delivered := dl\<rparr>) = ids m" "ids (m\<lparr>hnext := n\<rparr>) = ids m"
  by (simp_all add: ids_def)

lemma downloadBundle_error_base [simp]:
  "hnext (snd (downloadBundle_error d e r m)) = hnext m"
  "bundles (snd (downloadBundle_error d e r m)) = bundles m"
  "delivered (snd (downloadBundle_error d e r m)) = delivered m"
  "doingTasks (snd (downloadBundle_error d e r m)) = doingTasks m"
  "ids (snd (downloadBundle_error d e r m)) = ids m"
  "nm (heap (snd (downloadBundle_error d e r m))) a = nm (heap m) a"
  by (simp_all add: downloadBundle_error_def Let_def split: option.splits)

lemma downloadBundle_loop_base [simp]:
  "hnext (snd (downloadBundle_loop d index m)) = hnext m"
  "bundles (snd (downloadBundle_loop d index m)) = bundles m"
  "delivered (snd (downloadBundle_loop d index m)) = delivered m"
  "doingTasks (snd (downloadBundle_loop d index m)) = doingTasks m"
  "ids (snd (downloadBundle_loop d index m)) = ids m"
  "nm (heap (snd (downloadBundle_loop d index m))) a = nm (heap m) a"
  by (simp_all add: downloadBundle_loop_def split: option.splits)

lemma downloadBundle_base [simp]:
  "hnext (snd (downloadBundle i m)) = hnext m"
  "bundles (snd (downloadBundle i m)) = bundles m"
  "delivered (snd (downloadBundle i m)) = delivered m"
  "doingTasks (snd (downloadBundle i m)) = doingTasks m"
  "ids (snd (downloadBundle i m)) = ids m"
  "nm (heap (snd (downloadBundle i m))) a = nm (heap m) a"
  by (simp_all add: downloadBundle_def split: option.splits)

lemma file_done_base [simp]:
  "hnext (snd (file_done d index m)) = hnext m"
  "bundles (snd (file_done d index m)) = bundles m"
  "delivered (snd (file_done d index m)) = delivered m"
  "doingTasks (snd (file_done d index m)) = doingTasks m"
  "ids (snd (file_done d index m)) = ids m"
  "nm (heap (snd (file_done d index m))) a = nm (heap m) a"
  by (simp_all add: file_done_def Let_def split: option.splits)

lemma probe_missing_base [simp]:
  "hnext (snd (probe_missing d index rf m)) = hnext m"
  "bundles (snd (probe_missing d index rf m)) = bundles m"
  "delivered (snd (probe_missing d index rf m)) = delivered m"
  "doingTasks (snd (probe_missing d index rf m)) = doingTasks m"
  "ids (snd (probe_missing d index rf m)) = ids m"
  "nm (heap (snd (probe_missing d index rf m))) a = nm (heap m) a"
  by (simp_all add: probe_missing_def split: option.splits)

lemma start_transfer_base [simp]:
  "hnext (snd (start_transfer d index rf e m)) = hnext m"
  "bundles (snd (start_transfer d index rf e m)) = bundles m"
  "delivered (snd (start_transfer d index rf e m)) = delivered m"
  "doingTasks (snd (start_transfer d index rf e m)) = doingTasks m"
  "ids (snd (start_transfer d index rf e m)) = ids m"
  "nm (heap (snd (start_transfer d index rf e m))) a = nm (heap m) a"
  by (simp_all add: start_transfer_def Let_def split: option.splits)

lemma downloadSuccess_base [simp]:
  "hnext (snd (downloadSuccess d index rf e m)) = hnext m"
  "bundles (snd (downloadSuccess d index rf e m)) = bundles m"
  "delivered (snd (downloadSuccess d index rf e m)) = delivered m"
  "doingTasks (snd (downloadSuccess d index rf e m)) = doingTasks m"
  "ids (snd (downloadSuccess d index rf e m)) = ids m"
  "nm (heap (snd (downloadSuccess d index rf e m))) a = nm (heap m) a"
  by (simp_all add: downloadSuccess_def split: option.splits)

lemma downloadFail_base [simp]:
  "hnext (snd (downloadFail d c err m)) = hnext m"
  "bundles (snd (downloadFail d c err m)) = bundles m"
  "delivered (snd (downloadFail d c err m)) = delivered m"
  "doingTasks (snd (downloadFail d c err m)) = doingTasks m"
  "ids (snd (downloadFail d c err m)) = ids m"
  "nm (heap (snd (downloadFail d c err m))) a = nm (heap m) a"
  by (simp_all add: downloadFail_def Let_def split: option.splits)

lemma removeBundleFiles_loop_base_aux:
  "hnext (snd (removeBundleFiles_loop i b index m)) = hnext m
   \<and> bundles (snd (removeBundleFiles_loop i b index m)) = bundles m
   \<and> delivered (snd (removeBundleFiles_loop i b index m)) = delivered m
   \<and> doingTasks (snd (removeBundleFiles_loop i b index m)) = doingTasks m
   \<and> ids (snd (removeBundleFiles_loop i b index m)) = ids m
   \<and> eventQueue (snd (removeBundleFiles_loop i b index m)) = eventQueue m
   \<and> heap (snd (removeBundleFiles_loop i b index m)) = heap m"
proof (induction i b index m rule: removeBundleFiles_loop.induct)
  case (1 i b index m)
  show ?case
    using "1.IH"
    by (subst (1 2 3 4 5 6 7) removeBundleFiles_loop.simps)
       (simp split: option.splits bool.splits)
qed

lemma removeBundleFiles_loop_base [simp]:
  "hnext (snd (removeBundleFiles_loop i b index m)) = hnext m"
  "bundles (snd (removeBundleFiles_loop i b index m)) = bundles m"
  "delivered (snd (removeBundleFiles_loop i b index m)) = delivered m"
  "doingTasks (snd (removeBundleFiles_loop i b index m)) = doingTasks m"
  "ids (snd (removeBundleFiles_loop i b index m)) = ids m"
  "eventQueue (snd (removeBundleFiles_loop i b index m)) = eventQueue m"
  "heap (snd (removeBundleFiles_loop i b index m)) = heap m"
  using removeBundleFiles_loop_base_aux [of i b index m] by simp_all

lemma remove_found_base [simp]:
  "hnext (snd (remove_found i b index f e m)) = hnext m"
  "bundles (snd (remove_found i b index f e m)) = bundles m"
  "delivered (snd (remove_found i b index f e m)) = delivered m"
  "doingTasks (snd (remove_found i b index f e m)) = doingTasks m"
  "ids (snd (remove_found i b index f e m)) = ids m"
  "eventQueue (snd (remove_found i b index f e m)) = eventQueue m"
  "heap (snd (remove_found i b index f e m)) = heap m"
  by (simp_all add: remove_found_def Let_def)

lemma onprogress_base [simp]:
  "hnext (onprogress d index e m) = hnext m" "bundles (onprogress d index e m) = bundles m"
  "delivered (onprogress d index e m) = delivered m"
  "doingTasks (onprogress d index e m) = doingTasks m"
  "ids (onprogress d index e m) = ids m" "heap (onprogress d index e m) = heap m"
  "running (onprogress d index e m) = running m" "tasks (onprogress d index e m) = tasks m"
  by (simp_all add: onprogress_def Let_def split: option.splits)

lemma doIt_base [simp]:
  "hnext (snd (doIt i m)) = hnext m" "bundles (snd (doIt i m)) = bundles m"
  "delivered (snd (doIt i m)) = delivered m" "doingTasks (snd (doIt i m)) = doingTasks m"
  "ids (snd (doIt i m)) = ids m" "nm (heap (snd (doIt i m))) a = nm (heap m) a"
  by (simp_all add: doIt_def removeBundleFiles_def split: task_type.splits option.splits)

lemma keys_ids: "ids m' = ids m \<Longrightarrow> keys m' = keys m"
proof -
  have "task_key = (\<lambda>(n, ty, c, e). (n, ty)) \<circ> task_id"
    by (auto simp: fun_eq_iff task_key_def task_id_def)
  then have "keys x = map (\<lambda>(n, ty, c, e). (n, ty)) (ids x)" for x
    by (simp add: keys_def ids_def)
  then show "ids m' = ids m \<Longrightarrow> keys m' = keys m" by simp
qed

lemma bundle_view_nm: "bundle_view h a = Some v \<Longrightarrow> nm h a = JStr (b_name v)"
  by (auto simp: bundle_view_def nm_def Let_def split: jsval.splits option.splits if_splits)

lemma keys_nth:
  "keys m' = keys m \<Longrightarrow> i < length (tasks m) \<Longrightarrow>
   bundleName (tasks m' ! i) = bundleName (tasks m ! i) \<and> type (tasks m' ! i) = type (tasks m ! i)
   \<and> length (tasks m') = length (tasks m)"
proof -
  assume k: "keys m' = keys m" and i: "i < length (tasks m)"
  from k have l: "length (tasks m') = length (tasks m)"
    unfolding keys_def by (metis length_map)
  from k have "keys m' ! i = keys m ! i" by simp
  then have "task_key (tasks m' ! i) = task_key (tasks m ! i)"
    using i l by (simp add: keys_def)
  then show ?thesis using l by (simp add: task_key_def)
qed

lemma names_ok_idle:
  "running m = None \<Longrightarrow>
   names_ok m \<longleftrightarrow> (\<forall>(k, a) \<in> set (bundles m). a < hnext m \<and> nm (heap m) a = JStr k)"
  by (simp add: names_ok_def)

lemma names_ok_waiting:
  "running m = Some c \<Longrightarrow>
   names_ok m \<longleftrightarrow>
     (\<forall>(k, a) \<in> set (bundles m). a < hnext m \<and> nm (heap m) a = JStr k)
     \<and> doingTasks m \<and> cont_task c < length (tasks m)
     \<and> (is_dl c \<longrightarrow>
           cont_bundle c < hnext m
           \<and> nm (heap m) (cont_bundle c) = JStr (bundleName (tasks m ! cont_task c))
           \<and> type (tasks m ! cont_task c) = TASK_TYPE_LOAD)"
  by (simp add: names_ok_def)

lemma names_ok_bundles:
  "names_ok m \<Longrightarrow> (k, a) \<in> set (bundles m) \<Longrightarrow> a < hnext m \<and> nm (heap m) a = JStr k"
  by (auto simp: names_ok_def)

lemma names_ok_doing: "names_ok m \<Longrightarrow> \<not> doingTasks m \<Longrightarrow> running m = None"
  by (cases "running m") (simp_all add: names_ok_def)

lemma names_ok_cong:
  assumes "names_ok m" and "bundles m' = bundles m" and "hnext m' = hnext m"
    and "\<forall>a. nm (heap m') a = nm (heap m) a" and "running m' = running m"
    and "doingTasks m' = doingTasks m" and "keys m' = keys m"
  shows "names_ok m'"
proof (cases "running m")
  case None
  then show ?thesis using assms(1-5) by (simp add: names_ok_idle)
next
  case (Some c)
  from Some have l: "cont_task c < length (tasks m)"
    using assms(1) by (simp add: names_ok_waiting)
  note k = keys_nth [OF assms(7) l]
  have r: "running m' = Some c" using Some assms(5) by simp
  show ?thesis
    using assms(1-4,6) k l unfolding names_ok_waiting [OF r] names_ok_waiting [OF Some]
    by simp
qed

lemma emits_refl [simp]: "emits i b m m"
  by (simp add: emits_def)

lemma emits_same: "eventQueue m' = eventQueue m \<Longrightarrow> emits i b m m'"
  by (simp add: emits_def)

lemma emits_trans:
  "emits i b m1 m2 \<Longrightarrow> emits i b m m1 \<Longrightarrow> canceled (tasks m1 ! i) = canceled (tasks m ! i)
   \<Longrightarrow> nm (heap m1) b = nm (heap m) b \<Longrightarrow> emits i b m m2"
  unfolding emits_def by metis

lemma emits_send:
  "\<not> canceled (tasks m ! i) \<Longrightarrow> name e = Some k \<Longrightarrow> nm (heap m) b = JStr k
   \<Longrightarrow> eventQueue m' = eventQueue m \<Longrightarrow> emits i b m (sendEvent e m')"
  by (auto simp: emits_def sendEvent_def)

lemma canceled_upd_task_gen:
  "(\<And>t. canceled (f t) = canceled t)
   \<Longrightarrow> canceled (tasks (upd_task i f m) ! j) = canceled (tasks m ! j)"
  by (cases "i < length (tasks m)") (simp_all add: upd_task_def nth_list_update list_update_beyond)

lemma canceled_upd_task [simp]:
  "canceled (tasks (upd_task i (\<lambda>t. t\<lparr>failed := y, error := z, retry := w\<rparr>) m) ! j)
     = canceled (tasks m ! j)"
  "canceled (tasks (upd_task i (\<lambda>t. t\<lparr>ft := x\<rparr>) m) ! j) = canceled (tasks m ! j)"
  by (simp_all add: canceled_upd_task_gen)

lemma downloadBundle_error_emits:
  "emits (dl_task d) (dl_bundle d) m (snd (downloadBundle_error d e r m))"
proof (cases "\<not> r \<and> \<not> canceled (tasks m ! dl_task d)")
  case False
  then show ?thesis
    by (auto simp: downloadBundle_error_def Let_def intro!: emits_same)
next
  case True
  show ?thesis
  proof (cases "bundle_view (heap m) (dl_bundle d)")
    case None
    then show ?thesis using True
      by (auto simp: downloadBundle_error_def Let_def intro!: emits_same)
  next
    case (Some v)
    have "emits (dl_task d) (dl_bundle d) m
            (sendEvent (error_ev (b_name v) e)
               (upd_task (dl_task d) (\<lambda>t. t\<lparr>failed := True, error := Some e, retry := r\<rparr>) m))"
      using True bundle_view_nm [OF Some] by (intro emits_send) simp_all
    then show ?thesis using True Some by (simp add: downloadBundle_error_def Let_def)
  qed
qed

lemma canceled_body [simp]:
  "canceled (tasks (snd (downloadBundle_error d e r m)) ! j) = canceled (tasks m ! j)"
  by (simp add: downloadBundle_error_def Let_def split: option.splits)

lemma downloadBundle_loop_emits:
  "emits (dl_task d) (dl_bundle d) m (snd (downloadBundle_loop d index m))"
proof (cases "canceled (tasks m ! dl_task d)")
  case True
  then show ?thesis by (simp add: downloadBundle_loop_def downloadBundle_error_emits)
next
  case False
  show ?thesis
  proof (cases "bundle_view (heap m) (dl_bundle d)")
    case None
    then show ?thesis using False by (simp add: downloadBundle_loop_def)
  next
    case (Some v)
    have "emits (dl_task d) (dl_bundle d) m
            (sendEvent (bundle_event BUNDLE_EVENT_LOADED (b_name v))
               (persist (setprop (dl_bundle d) ''loaded'' (JBool True) m)))"
      using False bundle_view_nm [OF Some] by (intro emits_send) simp_all
    then show ?thesis using False Some
      by (auto simp: downloadBundle_loop_def intro!: emits_same)
  qed
qed

lemma canceled_loop [simp]:
  "canceled (tasks (snd (downloadBundle_loop d index m)) ! j) = canceled (tasks m ! j)"
  by (simp add: downloadBundle_loop_def split: option.splits)

lemma file_done_emits: "emits (dl_task d) (dl_bundle d) m (snd (file_done d index m))"
proof (cases "canceled (tasks m ! dl_task d)")
  case True
  then show ?thesis
    using downloadBundle_loop_emits [of d m "Suc index"] by (simp add: file_done_def)
next
  case False
  show ?thesis
  proof (cases "bundle_view (heap m) (dl_bundle d)")
    case None
    then show ?thesis using False by (simp add: file_done_def)
  next
    case (Some v)
    let ?d = "d\<lparr>totalDoneSize := jadd (totalDoneSize d) (weight v index)\<rparr>"
    let ?m1 = "sendEvent (progress_ev (b_name v) (jdiv (totalDoneSize ?d) (totalSize ?d))) m"
    have 1: "emits (dl_task d) (dl_bundle d) m ?m1"
      using False bundle_view_nm [OF Some] by (intro emits_send) simp_all
    have 2: "emits (dl_task ?d) (dl_bundle ?d) ?m1 (snd (downloadBundle_loop ?d (Suc index) ?m1))"
      by (rule downloadBundle_loop_emits)
    have "emits (dl_task d) (dl_bundle d) m (snd (downloadBundle_loop ?d (Suc index) ?m1))"
      using emits_trans [OF 2 [simplified] 1 [simplified]] by simp
    then show ?thesis using False Some by (simp add: file_done_def Let_def)
  qed
qed

lemma downloadSuccess_emits:
  "emits (dl_task d) (dl_bundle d) m (snd (downloadSuccess d index f e m))"
proof -
  let ?m1 = "addLocalURL f e (upd_task (dl_task d) (\<lambda>t. t\<lparr>ft := False\<rparr>) m)"
  have q: "eventQueue ?m1 = eventQueue m" by simp
  have 1: "emits (dl_task d) (dl_bundle d) m ?m1" using q by (rule emits_same)
  have 2: "emits (dl_task d) (dl_bundle d) ?m1 (snd (file_done d index ?m1))"
    by (rule file_done_emits)
  have c: "canceled (tasks ?m1 ! dl_task d) = canceled (tasks m ! dl_task d)"
    by (simp add: addLocalURL_def)
  show ?thesis unfolding downloadSuccess_def
    by (rule emits_trans [OF 2 1 c]) simp
qed

lemma downloadFail_emits:
  "emits (dl_task d) (dl_bundle d) m (snd (downloadFail d cr err m))"
proof -
  let ?m1 = "upd_task (dl_task d) (\<lambda>t. t\<lparr>ft := False\<rparr>) m"
  let ?m2 = "?m1\<lparr>requests := requests ?m1 @ [RemoveFile (fullPath cr)]\<rparr>"
  have 1: "emits (dl_task d) (dl_bundle d) m ?m2" by (rule emits_same) simp
  have 2: "emits (dl_task d) (dl_bundle d) ?m2
             (snd (downloadBundle_error d (FileTransferError err) (retry_of err) ?m2))"
    by (rule downloadBundle_error_emits)
  have c: "canceled (tasks ?m2 ! dl_task d) = canceled (tasks m ! dl_task d)" by simp
  have n: "nm (heap ?m2) (dl_bundle d) = nm (heap m) (dl_bundle d)" by (simp add: nm_def)
  show ?thesis
    using 1 emits_trans [OF 2 1 c n] by (simp add: downloadFail_def Let_def)
qed

lemma onprogress_emits: "emits (dl_task d) (dl_bundle d) m (onprogress d index e m)"
proof (cases "lengthComputable e \<and> \<not> canceled (tasks m ! dl_task d)")
  case False
  then show ?thesis by (auto simp: onprogress_def)
next
  case True
  show ?thesis
  proof (cases "bundle_view (heap m) (dl_bundle d)")
    case None
    then show ?thesis using True by (simp add: onprogress_def)
  next
    case (Some v)
    have "emits (dl_task d) (dl_bundle d) m (sendEvent (progress_ev (b_name v) x) m)" for x
      using True bundle_view_nm [OF Some] by (intro emits_send) simp_all
    then show ?thesis using True Some by (simp add: onprogress_def Let_def)
  qed
qed

lemma downloadBundle_emits:
  assumes "\<not> canceled (tasks m ! i)"
    and "map_of (bundles m) (bundleName (tasks m ! i)) = Some b"
  shows "emits i b m (snd (downloadBundle i m))"
proof (cases "bundle_view (heap m) b")
  case None
  then show ?thesis using assms by (simp add: downloadBundle_def)
next
  case (Some v)
  let ?d = "\<lparr>dl_task = i, dl_bundle = b, totalSize = total_weight v, totalDoneSize = Fin 0\<rparr>"
  let ?m1 = "sendEvent (bundle_event BUNDLE_EVENT_LOADING (b_name v)) m"
  have 1: "emits i b m ?m1"
    using assms(1) bundle_view_nm [OF Some] by (intro emits_send) simp_all
  have 2: "emits (dl_task ?d) (dl_bundle ?d) ?m1 (snd (downloadBundle_loop ?d 0 ?m1))"
    by (rule downloadBundle_loop_emits)
  have "emits i b m (snd (downloadBundle_loop ?d 0 ?m1))"
    using emits_trans [OF 2 [simplified] 1] by simp
  then show ?thesis using assms Some by (simp add: downloadBundle_def)
qed

lemma waits_cong: "waits ld i b m1 r \<Longrightarrow> running m1 = running m \<Longrightarrow> waits ld i b m r"
  by (simp add: waits_def)

lemma downloadBundle_error_waits:
  "waits True (dl_task d) (dl_bundle d) m (downloadBundle_error d e r m)"
  by (simp add: waits_def downloadBundle_error_def Let_def split: option.splits)

lemma downloadBundle_loop_waits:
  "waits True (dl_task d) (dl_bundle d) m (downloadBundle_loop d index m)"
proof (cases "canceled (tasks m ! dl_task d)")
  case True
  then show ?thesis by (simp add: downloadBundle_loop_def downloadBundle_error_waits)
next
  case False
  then show ?thesis
    by (simp add: waits_def downloadBundle_loop_def split: option.splits)
qed

lemma file_done_waits: "waits True (dl_task d) (dl_bundle d) m (file_done d index m)"
proof (cases "bundle_view (heap m) (dl_bundle d)")
  case None
  then show ?thesis
    using downloadBundle_loop_waits [of d m "Suc index"]
    by (simp add: file_done_def) (simp add: waits_def)
next
  case (Some v)
  let ?d = "d\<lparr>totalDoneSize := jadd (totalDoneSize d) (weight v index)\<rparr>"
  let ?m1 = "sendEvent (progress_ev (b_name v) (jdiv (totalDoneSize ?d) (totalSize ?d))) m"
  have "waits True (dl_task ?d) (dl_bundle ?d) ?m1 (downloadBundle_loop ?d (Suc index) ?m1)"
    by (rule downloadBundle_loop_waits)
  then have "waits True (dl_task d) (dl_bundle d) ?m1 (downloadBundle_loop ?d (Suc index) ?m1)"
    by simp
  then have "waits True (dl_task d) (dl_bundle d) m (downloadBundle_loop ?d (Suc index) ?m1)"
    by (rule waits_cong) simp
  then show ?thesis
    using Some downloadBundle_loop_waits [of d m "Suc index"]
    by (simp add: file_done_def Let_def)
qed

lemma probe_missing_waits: "waits True (dl_task d) (dl_bundle d) m (probe_missing d index f m)"
  by (simp add: waits_def probe_missing_def)

lemma start_transfer_waits:
  "waits True (dl_task d) (dl_bundle d) m (start_transfer d index f e m)"
  by (simp add: waits_def start_transfer_def Let_def)

lemma downloadSuccess_waits:
  "waits True (dl_task d) (dl_bundle d) m (downloadSuccess d index f e m)"
  unfolding downloadSuccess_def
  by (rule waits_cong [OF file_done_waits]) (simp add: addLocalURL_def)

lemma downloadFail_waits: "waits True (dl_task d) (dl_bundle d) m (downloadFail d cr err m)"
proof -
  let ?m1 = "upd_task (dl_task d) (\<lambda>t. t\<lparr>ft := False\<rparr>) m"
  let ?m2 = "?m1\<lparr>requests := requests ?m1 @ [RemoveFile (fullPath cr)]\<rparr>"
  have "waits True (dl_task d) (dl_bundle d) m
          (downloadBundle_error d (FileTransferError err) (retry_of err) ?m2)"
    by (rule waits_cong [OF downloadBundle_error_waits]) simp
  then show ?thesis by (simp add: downloadFail_def Let_def) (simp add: waits_def)
qed

lemma downloadBundle_waits:
  "map_of (bundles m) (bundleName (tasks m ! i)) = Some b
   \<Longrightarrow> waits True i b m (downloadBundle i m)"
proof (cases "bundle_view (heap m) b")
  case None
  assume "map_of (bundles m) (bundleName (tasks m ! i)) = Some b"
  then show ?thesis using None by (simp add: downloadBundle_def waits_def)
next
  case (Some v)
  assume b: "map_of (bundles m) (bundleName (tasks m ! i)) = Some b"
  let ?d = "\<lparr>dl_task = i, dl_bundle = b, totalSize = total_weight v, totalDoneSize = Fin 0\<rparr>"
  let ?m1 = "sendEvent (bundle_event BUNDLE_EVENT_LOADING (b_name v)) m"
  have "waits True (dl_task ?d) (dl_bundle ?d) ?m1 (downloadBundle_loop ?d 0 ?m1)"
    by (rule downloadBundle_loop_waits)
  then have "waits True i b ?m1 (downloadBundle_loop ?d 0 ?m1)" by simp
  then have "waits True i b m (downloadBundle_loop ?d 0 ?m1)" by (rule waits_cong) simp
  then show ?thesis using b Some by (simp add: downloadBundle_def)
qed

lemma removeBundleFiles_loop_waits: "waits False i b m (removeBundleFiles_loop i b index m)"
proof (induction i b index m rule: removeBundleFiles_loop.induct)
  case (1 i b index m)
  show ?case
  proof (cases "canceled (tasks m ! i)")
    case True
    then show ?thesis by (subst removeBundleFiles_loop.simps) (simp add: waits_def)
  next
    case nc: False
    show ?thesis
    proof (cases "bundle_view (heap m) b")
      case None
      then show ?thesis using nc by (subst removeBundleFiles_loop.simps) (simp add: waits_def)
    next
      case (Some v)
      show ?thesis
      proof (cases "index < length (b_files v)")
        case False
        then show ?thesis using nc Some
          by (subst removeBundleFiles_loop.simps) (simp add: waits_def)
      next
        case lt: True
        show ?thesis
        proof (cases "scan_bundles (heap m) (b_name v) (b_files v ! index) (bundles m)")
          case None
          then show ?thesis using nc Some lt
            by (subst removeBundleFiles_loop.simps) (simp add: waits_def)
        next
          case sc: (Some x)
          show ?thesis
          proof (cases x)
            case True
            have "waits False i b m (removeBundleFiles_loop i b (Suc index) m)"
              using "1.IH" [OF nc Some _ _ sc] True lt by simp
            then show ?thesis using nc Some lt sc True
              by (subst removeBundleFiles_loop.simps) simp
          next
            case False
            then show ?thesis using nc Some lt sc
              by (subst removeBundleFiles_loop.simps) (simp add: waits_def)
          qed
        qed
      qed
    qed
  qed
qed

lemma remove_found_waits: "waits False i b m (remove_found i b index f e m)"
  by (simp add: waits_def remove_found_def Let_def)

lemma silentI:
  "names_ok m
   \<Longrightarrow> (\<And>t. t \<in> set (tasks m) \<Longrightarrow> bundleName t \<in> N \<Longrightarrow> type t = TASK_TYPE_LOAD \<Longrightarrow> canceled t)
   \<Longrightarrow> (\<And>e. e \<in> set (eventQueue m) \<Longrightarrow> name e \<notin> Some ` N)
   \<Longrightarrow> filter (\<lambda>e. name e \<in> Some ` N) (delivered m) = D
   \<Longrightarrow> silent N D m"
  unfolding silent_def by blast

lemma silent_names: "silent N D m \<Longrightarrow> names_ok m"
  by (simp add: silent_def)

lemma silent_tasks:
  "silent N D m \<Longrightarrow> t \<in> set (tasks m) \<Longrightarrow> bundleName t \<in> N \<Longrightarrow> type t = TASK_TYPE_LOAD
   \<Longrightarrow> canceled t"
  by (simp add: silent_def)

lemma silent_queue: "silent N D m \<Longrightarrow> e \<in> set (eventQueue m) \<Longrightarrow> name e \<notin> Some ` N"
  by (simp add: silent_def)

lemma silent_delivered:
  "silent N D m \<Longrightarrow> filter (\<lambda>e. name e \<in> Some ` N) (delivered m) = D"
  by (simp add: silent_def)

lemma tasks_clause_ids:
  "(\<forall>t \<in> set (tasks m). bundleName t \<in> N \<and> type t = TASK_TYPE_LOAD \<longrightarrow> canceled t)
   \<longleftrightarrow> (\<forall>(bn, ty, c, e) \<in> set (ids m). bn \<in> N \<and> ty = TASK_TYPE_LOAD \<longrightarrow> c)"
  by (auto simp: ids_def task_id_def)

lemma silent_body:
  assumes s: "silent N D m" and r0: "running m = None" and dt: "doingTasks m"
    and i: "i < length (tasks m)"
    and ld: "ld \<Longrightarrow> type (tasks m ! i) = TASK_TYPE_LOAD \<and> b < hnext m
                   \<and> nm (heap m) b = JStr (bundleName (tasks m ! i))"
    and fr: "hnext m' = hnext m" "bundles m' = bundles m" "delivered m' = delivered m"
            "doingTasks m' = doingTasks m" "ids m' = ids m"
            "\<forall>a. nm (heap m') a = nm (heap m) a"
    and ev: "if ld then emits i b m m' else eventQueue m' = eventQueue m"
    and w: "waits ld i b m (st, m')"
  shows "silent N D m'" and "st \<noteq> Waiting \<Longrightarrow> running m' = None"
proof -
  note k = keys_nth [OF keys_ids [OF fr(5)] i]
  have n1: "\<forall>(k, a) \<in> set (bundles m'). a < hnext m' \<and> nm (heap m') a = JStr k"
    using silent_names [OF s] fr(1,2,6) by (auto simp: names_ok_def)
  show r: "st \<noteq> Waiting \<Longrightarrow> running m' = None"
    using w r0 by (simp add: waits_def)
  have nok: "names_ok m'"
  proof (cases "st = Waiting")
    case False
    then show ?thesis using r n1 by (simp add: names_ok_idle)
  next
    case True
    then obtain c where c: "running m' = Some c" "cont_task c = i" "cont_bundle c = b"
        "is_dl c = ld"
      using w by (auto simp: waits_def)
    show ?thesis
      unfolding names_ok_waiting [OF c(1)]
      using n1 dt fr(1,4,6) k ld c(2-4) i by auto
  qed
  have q: "name e \<notin> Some ` N" if e: "e \<in> set (eventQueue m')" for e
  proof (cases "e \<in> set (eventQueue m)")
    case True
    then show ?thesis using silent_queue [OF s] by blast
  next
    case False
    then have l: ld using ev e by (auto split: if_splits)
    from False l ev e obtain k where nc: "\<not> canceled (tasks m ! i)"
        and k: "name e = Some k" "nm (heap m) b = JStr k"
      by (auto simp: emits_def)
    from k(2) ld [OF l] have kn: "k = bundleName (tasks m ! i)" by simp
    have "tasks m ! i \<in> set (tasks m)" using i by simp
    then have "k \<notin> N" using silent_tasks [OF s, of "tasks m ! i"] ld [OF l] nc kn by blast
    then show ?thesis using k(1) by auto
  qed
  show "silent N D m'"
  proof (rule silentI [OF nok])
    fix t assume "t \<in> set (tasks m')" "bundleName t \<in> N" "type t = TASK_TYPE_LOAD"
    moreover have "\<forall>t \<in> set (tasks m'). bundleName t \<in> N \<and> type t = TASK_TYPE_LOAD \<longrightarrow> canceled t"
      unfolding tasks_clause_ids fr(5) using s by (simp add: silent_def tasks_clause_ids)
    ultimately show "canceled t" by blast
  next
    fix e assume "e \<in> set (eventQueue m')" then show "name e \<notin> Some ` N" by (rule q)
  next
    show "filter (\<lambda>e. name e \<in> Some ` N) (delivered m') = D"
      using silent_delivered [OF s] fr(3) by simp
  qed
qed

lemma silent_tasks_subset:
  assumes "silent N D m" and "running m = None" and "set ts \<subseteq> set (tasks m)"
  shows "silent N D (m\<lparr>tasks := ts\<rparr>)"
proof (rule silentI)
  show "names_ok (m\<lparr>tasks := ts\<rparr>)"
    using silent_names [OF assms(1)] assms(2) by (simp add: names_ok_idle)
next
  fix t assume "t \<in> set (tasks (m\<lparr>tasks := ts\<rparr>))" "bundleName t \<in> N" "type t = TASK_TYPE_LOAD"
  then show "canceled t" using silent_tasks [OF assms(1), of t] assms(3) by auto
next
  fix e assume "e \<in> set (eventQueue (m\<lparr>tasks := ts\<rparr>))"
  then show "name e \<notin> Some ` N" using silent_queue [OF assms(1), of e] by simp
next
  show "filter (\<lambda>e. name e \<in> Some ` N) (delivered (m\<lparr>tasks := ts\<rparr>)) = D"
    using silent_delivered [OF assms(1)] by simp
qed

lemma onComplete_silent:
  assumes "silent N D m" and "running m = None"
  shows "silent N D (onComplete i m)" and "running (onComplete i m) = None"
proof -
  have "silent N D (m\<lparr>tasks := splice1 i (tasks m)\<rparr>)"
    using assms by (rule silent_tasks_subset) (rule set_splice1)
  then show "silent N D (onComplete i m)" using assms(1) by (simp add: onComplete_def Let_def)
  show "running (onComplete i m) = None" using assms(2) by simp
qed

lemma silent_global:
  assumes "silent N D m" and "running m = None"
  shows "silent N D (sendEvent (global_event k) (m\<lparr>doingTasks := x\<rparr>))"
proof (rule silentI)
  show "names_ok (sendEvent (global_event k) (m\<lparr>doingTasks := x\<rparr>))"
    using silent_names [OF assms(1)] assms(2) by (simp add: names_ok_idle nm_def)
next
  fix t
  assume "t \<in> set (tasks (sendEvent (global_event k) (m\<lparr>doingTasks := x\<rparr>)))"
    "bundleName t \<in> N" "type t = TASK_TYPE_LOAD"
  then show "canceled t" using silent_tasks [OF assms(1), of t] by simp
next
  fix e assume "e \<in> set (eventQueue (sendEvent (global_event k) (m\<lparr>doingTasks := x\<rparr>)))"
  then show "name e \<notin> Some ` N"
    using silent_queue [OF assms(1), of e] by (auto simp: sendEvent_def global_event_def)
next
  show "filter (\<lambda>e. name e \<in> Some ` N)
          (delivered (sendEvent (global_event k) (m\<lparr>doingTasks := x\<rparr>))) = D"
    using silent_delivered [OF assms(1)] by simp
qed

lemma silent_stuck: "waits ld i b m (Stuck, m)"
  by (simp add: waits_def)

lemma doIt_silent:
  assumes s: "silent N D m" and r0: "running m = None" and dt: "doingTasks m"
    and i: "i < length (tasks m)" and nc: "\<not> canceled (tasks m ! i)"
    and r: "doIt i m = (st, m')"
  shows "silent N D m'" and "st \<noteq> Waiting \<Longrightarrow> running m' = None"
proof -
  have "silent N D m' \<and> (st \<noteq> Waiting \<longrightarrow> running m' = None)"
  proof (cases "type (tasks m ! i)")
    case TASK_TYPE_LOAD
    show ?thesis
    proof (cases "map_of (bundles m) (bundleName (tasks m ! i))")
      case None
      then have "st = Stuck" "m' = m" using r TASK_TYPE_LOAD by (simp_all add: doIt_def downloadBundle_def)
      then show ?thesis using s r0 by simp
    next
      case (Some b)
      have d: "downloadBundle i m = (st, m')" using r TASK_TYPE_LOAD by (simp add: doIt_def)
      then have m': "m' = snd (downloadBundle i m)" by simp
      have "(bundleName (tasks m ! i), b) \<in> set (bundles m)" using Some by (rule map_of_SomeD)
      note nb = names_ok_bundles [OF silent_names [OF s] this]
      have w: "waits True i b m (st, m')" using downloadBundle_waits [OF Some] d by simp
      have e: "if True then emits i b m m' else eventQueue m' = eventQueue m"
        using downloadBundle_emits [OF nc Some] m' by simp
      show ?thesis
        using silent_body [OF s r0 dt i _ _ _ _ _ _ _ e w] nb TASK_TYPE_LOAD
        unfolding m' by simp
    qed
  next
    case TASK_TYPE_REMOVE
    show ?thesis
    proof (cases "extra (tasks m ! i)")
      case None
      then have "st = Stuck" "m' = m"
        using r TASK_TYPE_REMOVE by (simp_all add: doIt_def removeBundleFiles_def)
      then show ?thesis using s r0 by simp
    next
      case (Some b)
      have d: "removeBundleFiles_loop i b 0 m = (st, m')"
        using r TASK_TYPE_REMOVE Some by (simp add: doIt_def removeBundleFiles_def)
      then have m': "m' = snd (removeBundleFiles_loop i b 0 m)" by simp
      have w: "waits False i b m (st, m')"
        using removeBundleFiles_loop_waits [of i b m 0] d by simp
      have e: "if False then emits i b m m' else eventQueue m' = eventQueue m"
        using m' by simp
      show ?thesis
        using silent_body [OF s r0 dt i _ _ _ _ _ _ _ e w]
        unfolding m' by simp
    qed
  qed
  then show "silent N D m'" and "st \<noteq> Waiting \<Longrightarrow> running m' = None" by simp_all
qed

lemma doTasks_loop_silent:
  assumes "silent N D m0" and "running m0 = None"
  shows "silent N D (doTasks_loop m0)"
proof (rule doTasks_loop_rule [where Q = "\<lambda>m. silent N D m \<and> running m = None"
                                and R = "silent N D"], goal_cases)
  case 1 show ?case using assms by simp
next
  case (2 m)
  then show ?case using silent_tasks_subset [of N D m "filter (\<lambda>t. \<not> canceled t) (tasks m)"] by simp
next
  case (3 m) then show ?case by (simp add: silent_global)
next
  case (4 m) then show ?case by simp
next
  case (5 m) then show ?case by (simp add: silent_global)
next
  case (6 m i st m')
  then have s: "silent N D m" and r0: "running m = None" by simp_all
  note d = doIt_silent [OF s r0 6(2,3,4,7)]
  show ?case using d onComplete_silent [OF d(1), of i] by auto
qed

lemma doTasks_silent: "silent N D m \<Longrightarrow> silent N D (doTasks m)"
  using doTasks_loop_silent [of N D m] names_ok_doing [OF silent_names, of N D m]
  by (simp add: doTasks_def)

lemma body_step_idle [simp]:
  "hnext (m\<lparr>running := x\<rparr>) = hnext m" "ids (m\<lparr>running := x\<rparr>) = ids m"
  "nm (heap (m\<lparr>running := x\<rparr>)) a = nm (heap m) a"
  by (simp_all add: ids_def nm_def)

lemma probe_missing_emits:
  "emits (dl_task d) (dl_bundle d) m (snd (probe_missing d index f m))"
  by (rule emits_same) (simp add: probe_missing_def)

lemma start_transfer_emits:
  "emits (dl_task d) (dl_bundle d) m (snd (start_transfer d index f e m))"
  by (rule emits_same) (simp add: start_transfer_def Let_def)

lemma body_step_dl:
  "body_step True (dl_task d) (dl_bundle d) m (file_done d index m)"
  "body_step True (dl_task d) (dl_bundle d) m (probe_missing d index f m)"
  "body_step True (dl_task d) (dl_bundle d) m (start_transfer d index f e m)"
  "body_step True (dl_task d) (dl_bundle d) m (downloadBundle_error d x y m)"
  "body_step True (dl_task d) (dl_bundle d) m (downloadSuccess d index f e m)"
  "body_step True (dl_task d) (dl_bundle d) m (downloadFail d e err m)"
  unfolding body_step_def
  by (simp_all add: file_done_emits file_done_waits probe_missing_waits start_transfer_waits
        downloadBundle_error_emits downloadBundle_error_waits downloadSuccess_emits
        downloadSuccess_waits downloadFail_emits downloadFail_waits probe_missing_emits
        start_transfer_emits)

lemma body_step_rm:
  "body_step False i b m (removeBundleFiles_loop i b index m)"
  "body_step False i b m (remove_found i b index f e m)"
  unfolding body_step_def
  by (simp_all add: removeBundleFiles_loop_waits remove_found_waits)

lemma handle_body_step:
  assumes "handle inp c m = Some r"
  shows "(\<exists>d index f cr e. c = DlTransfer d index f cr \<and> inp = TransferProgress e
            \<and> r = (Waiting, onprogress d index e m))
         \<or> body_step (is_dl c) (cont_task c) (cont_bundle c) (m\<lparr>running := None\<rparr>) r"
proof (cases c)
  case (DlProbe d index f)
  then show ?thesis using assms
    by (cases inp) (auto simp: handle_def body_step_dl)
next
  case (DlCreate d index f)
  then show ?thesis using assms
    by (cases inp) (auto simp: handle_def body_step_dl)
next
  case (DlTransfer d index f cr)
  then show ?thesis using assms
    by (cases inp) (auto simp: handle_def body_step_dl)
next
  case (RmGetFile i b index f)
  then show ?thesis using assms
    by (cases inp) (auto simp: handle_def body_step_rm)
next
  case (RmRemove i b index)
  then show ?thesis using assms
    by (cases inp) (auto simp: handle_def body_step_rm)
qed

lemma silent_idle:
  assumes "silent N D m"
  shows "silent N D (m\<lparr>running := None\<rparr>)"
proof (rule silentI)
  show "names_ok (m\<lparr>running := None\<rparr>)"
    using silent_names [OF assms] by (auto simp: names_ok_def nm_def)
next
  fix t assume "t \<in> set (tasks (m\<lparr>running := None\<rparr>))" "bundleName t \<in> N" "type t = TASK_TYPE_LOAD"
  then show "canceled t" using silent_tasks [OF assms, of t] by simp
next
  fix e assume "e \<in> set (eventQueue (m\<lparr>running := None\<rparr>))"
  then show "name e \<notin> Some ` N" using silent_queue [OF assms, of e] by simp
next
  show "filter (\<lambda>e. name e \<in> Some ` N) (delivered (m\<lparr>running := None\<rparr>)) = D"
    using silent_delivered [OF assms] by simp
qed

lemma onprogress_silent:
  assumes s: "silent N D m" and rc: "running m = Some (DlTransfer d index f cr)"
  shows "silent N D (onprogress d index e m)"
proof -
  let ?m' = "onprogress d index e m"
  from silent_names [OF s] rc
  have i: "dl_task d < length (tasks m)" and ty: "type (tasks m ! dl_task d) = TASK_TYPE_LOAD"
    and nb: "nm (heap m) (dl_bundle d) = JStr (bundleName (tasks m ! dl_task d))"
    by (simp_all add: names_ok_waiting)
  have nok: "names_ok ?m'"
    by (rule names_ok_cong [OF silent_names [OF s]]) (simp_all add: keys_def)
  show ?thesis
  proof (rule silentI [OF nok])
    fix t assume "t \<in> set (tasks ?m')" "bundleName t \<in> N" "type t = TASK_TYPE_LOAD"
    then show "canceled t" using silent_tasks [OF s, of t] by simp
  next
    fix x assume x: "x \<in> set (eventQueue ?m')"
    show "name x \<notin> Some ` N"
    proof (cases "x \<in> set (eventQueue m)")
      case True
      then show ?thesis using silent_queue [OF s] by blast
    next
      case False
      with x onprogress_emits [of d m index e] obtain k
        where nc: "\<not> canceled (tasks m ! dl_task d)"
          and k: "name x = Some k" "nm (heap m) (dl_bundle d) = JStr k"
        by (auto simp: emits_def)
      from k(2) nb have kn: "k = bundleName (tasks m ! dl_task d)" by simp
      have "tasks m ! dl_task d \<in> set (tasks m)" using i by simp
      then have "k \<notin> N" using silent_tasks [OF s, of "tasks m ! dl_task d"] ty nc kn by blast
      then show ?thesis using k(1) by auto
    qed
  next
    show "filter (\<lambda>e. name e \<in> Some ` N) (delivered ?m') = D"
      using silent_delivered [OF s] by simp
  qed
qed

lemma callback_silent:
  assumes s: "silent N D m" and rc: "running m = Some c"
  shows "silent N D (callback inp c m)"
proof (cases "handle inp c m")
  case None
  then show ?thesis using s by (simp add: callback_def)
next
  case (Some r)
  from handle_body_step [OF Some] show ?thesis
  proof
    assume "\<exists>d index f cr e. c = DlTransfer d index f cr \<and> inp = TransferProgress e
              \<and> r = (Waiting, onprogress d index e m)"
    then obtain d index f cr e where c: "c = DlTransfer d index f cr"
      and r: "r = (Waiting, onprogress d index e m)" by blast
    show ?thesis
      using onprogress_silent [OF s rc [unfolded c]] Some r
      by (simp add: callback_def resume_def)
  next
    assume b: "body_step (is_dl c) (cont_task c) (cont_bundle c) (m\<lparr>running := None\<rparr>) r"
    let ?m0 = "m\<lparr>running := None\<rparr>"
    obtain st m' where r: "r = (st, m')" by (cases r)
    from silent_names [OF s] rc
    have n: "doingTasks ?m0" "cont_task c < length (tasks ?m0)"
      "is_dl c \<Longrightarrow> type (tasks ?m0 ! cont_task c) = TASK_TYPE_LOAD \<and> cont_bundle c < hnext ?m0
          \<and> nm (heap ?m0) (cont_bundle c) = JStr (bundleName (tasks ?m0 ! cont_task c))"
      by (simp_all add: names_ok_waiting)
    have r0: "running ?m0 = None" by simp
    from b have fr: "hnext m' = hnext ?m0" "bundles m' = bundles ?m0"
        "delivered m' = delivered ?m0" "doingTasks m' = doingTasks ?m0" "ids m' = ids ?m0"
        "\<forall>a. nm (heap m') a = nm (heap ?m0) a"
        "if is_dl c then emits (cont_task c) (cont_bundle c) ?m0 m'
         else eventQueue m' = eventQueue ?m0"
        "waits (is_dl c) (cont_task c) (cont_bundle c) ?m0 (st, m')"
      unfolding body_step_def r snd_conv by blast+
    note sb = silent_body [OF silent_idle [OF s] r0 n(1,2) n(3) fr]
    show ?thesis
    proof (cases st)
      case Completed
      then have "running m' = None" using sb(2) by simp
      note oc = onComplete_silent [OF sb(1) this, of "cont_task c"]
      show ?thesis
        using doTasks_loop_silent [OF oc] Some r Completed
        by (simp add: callback_def resume_def)
    next
      case Waiting
      then show ?thesis using sb(1) Some r by (simp add: callback_def resume_def)
    next
      case Stuck
      then show ?thesis using sb(1) Some r by (simp add: callback_def resume_def)
    qed
  qed
qed

lemma names_ok_mono:
  assumes "names_ok m" and "set (bundles m') \<subseteq> set (bundles m)" and "hnext m \<le> hnext m'"
    and "\<forall>a < hnext m. nm (heap m') a = nm (heap m) a" and "running m' = running m"
    and "doingTasks m' = doingTasks m" and "keys m' = keys m"
  shows "names_ok m'"
proof -
  have n1: "\<forall>(k, a) \<in> set (bundles m'). a < hnext m' \<and> nm (heap m') a = JStr k"
  proof (clarify)
    fix k a assume "(k, a) \<in> set (bundles m')"
    then have "(k, a) \<in> set (bundles m)" using assms(2) by blast
    from names_ok_bundles [OF assms(1) this] show "a < hnext m' \<and> nm (heap m') a = JStr k"
      using assms(3,4) by simp
  qed
  show ?thesis
  proof (cases "running m")
    case None
    then show ?thesis using n1 assms(5) by (simp add: names_ok_idle)
  next
    case (Some c)
    from Some have l: "cont_task c < length (tasks m)"
      using assms(1) by (simp add: names_ok_waiting)
    note k = keys_nth [OF assms(7) l]
    have r: "running m' = Some c" using Some assms(5) by simp
    from assms(1) have w: "doingTasks m"
      "is_dl c \<Longrightarrow> cont_bundle c < hnext m
          \<and> nm (heap m) (cont_bundle c) = JStr (bundleName (tasks m ! cont_task c))
          \<and> type (tasks m ! cont_task c) = TASK_TYPE_LOAD"
      unfolding names_ok_waiting [OF Some] by simp_all
    show ?thesis
      unfolding names_ok_waiting [OF r]
      using n1 w k l assms(3,4,6) by auto
  qed
qed

lemma silent_frame:
  assumes s: "silent N D m" and n: "names_ok m'"
    and t: "\<And>t'. t' \<in> set (tasks m') \<Longrightarrow>
              \<exists>t \<in> set (tasks m). bundleName t = bundleName t' \<and> type t = type t'
                 \<and> (canceled t \<longrightarrow> canceled t')"
    and q: "set (eventQueue m') \<subseteq> set (eventQueue m)"
    and d: "delivered m' = delivered m"
  shows "silent N D m'"
proof (rule silentI [OF n])
  fix t' assume a: "t' \<in> set (tasks m')" "bundleName t' \<in> N" "type t' = TASK_TYPE_LOAD"
  from t [OF a(1)] obtain x where "x \<in> set (tasks m)" "bundleName x = bundleName t'"
    "type x = type t'" "canceled x \<longrightarrow> canceled t'" by blast
  then show "canceled t'" using silent_tasks [OF s, of x] a by simp
next
  fix e assume "e \<in> set (eventQueue m')"
  then show "name e \<notin> Some ` N" using silent_queue [OF s, of e] q by blast
next
  show "filter (\<lambda>e. name e \<in> Some ` N) (delivered m') = D"
    using silent_delivered [OF s] d by simp
qed

text \<open>What \<open>_cancelTask\<close> does to the list and to the queue.\<close>

lemma abort_nth:
  "bundleName (tasks (abort a m) ! j) = bundleName (tasks m ! j)"
  "type (tasks (abort a m) ! j) = type (tasks m ! j)"
  "canceled (tasks (abort a m) ! j) \<longleftrightarrow> canceled (tasks m ! j) \<or> (j = a \<and> a < length (tasks m))"
  by (cases "a < length (tasks m)"; cases "j = a";
      simp add: abort_tasks list_update_beyond nth_list_update)+

lemma abort_queue:
  "eventQueue (abort a m)
     = filter (\<lambda>e. name e \<noteq> Some (bundleName (tasks m ! a))) (eventQueue m)"
  by (simp add: abort_def Let_def purgeEvents_def)

lemma cancel_fold_nth:
  "bundleName (tasks (fold (\<lambda>i m. if bundleName (tasks m ! i) = n \<and> type (tasks m ! i) = ty
                                   then abort i m else m) js m) ! j)
     = bundleName (tasks m ! j)
   \<and> type (tasks (fold (\<lambda>i m. if bundleName (tasks m ! i) = n \<and> type (tasks m ! i) = ty
                                   then abort i m else m) js m) ! j)
     = type (tasks m ! j)
   \<and> (canceled (tasks (fold (\<lambda>i m. if bundleName (tasks m ! i) = n \<and> type (tasks m ! i) = ty
                                   then abort i m else m) js m) ! j)
      \<longleftrightarrow> canceled (tasks m ! j)
          \<or> (j \<in> set js \<and> j < length (tasks m) \<and> bundleName (tasks m ! j) = n
               \<and> type (tasks m ! j) = ty))"
proof (induction js arbitrary: m)
  case Nil
  show ?case by simp
next
  case (Cons a js)
  show ?case
  proof (cases "bundleName (tasks m ! a) = n \<and> type (tasks m ! a) = ty")
    case True
    then show ?thesis using Cons [of "abort a m"] by (auto simp: abort_nth)
  next
    case False
    then show ?thesis using Cons [of m] by auto
  qed
qed

lemma cancel_fold_queue:
  "eventQueue (fold (\<lambda>i m. if bundleName (tasks m ! i) = n \<and> type (tasks m ! i) = ty
                             then abort i m else m) js m)
     = (if \<exists>j \<in> set js. bundleName (tasks m ! j) = n \<and> type (tasks m ! j) = ty
        then filter (\<lambda>e. name e \<noteq> Some n) (eventQueue m) else eventQueue m)"
proof (induction js arbitrary: m)
  case Nil
  show ?case by simp
next
  case (Cons a js)
  show ?case
  proof (cases "bundleName (tasks m ! a) = n \<and> type (tasks m ! a) = ty")
    case True
    then show ?thesis using Cons [of "abort a m"] by (simp add: abort_nth abort_queue)
  next
    case False
    then show ?thesis using Cons [of m] by auto
  qed
qed

lemma cancelTask_nth:
  "bundleName (tasks (cancelTask n ty m) ! j) = bundleName (tasks m ! j)"
  "type (tasks (cancelTask n ty m) ! j) = type (tasks m ! j)"
  "canceled (tasks (cancelTask n ty m) ! j)
     \<longleftrightarrow> canceled (tasks m ! j)
         \<or> (j < length (tasks m) \<and> bundleName (tasks m ! j) = n \<and> type (tasks m ! j) = ty)"
  unfolding cancelTask_def
  using cancel_fold_nth [of n ty "[0 ..< length (tasks m)]" m j] by auto

lemma cancelTask_queue:
  "eventQueue (cancelTask n ty m)
     = (if \<exists>t \<in> set (tasks m). bundleName t = n \<and> type t = ty
        then filter (\<lambda>e. name e \<noteq> Some n) (eventQueue m) else eventQueue m)"
proof -
  have "(\<exists>j \<in> set [0 ..< length (tasks m)]. bundleName (tasks m ! j) = n \<and> type (tasks m ! j) = ty)
        \<longleftrightarrow> (\<exists>t \<in> set (tasks m). bundleName t = n \<and> type t = ty)"
    unfolding set_upt by (metis atLeastLessThan_iff in_set_conv_nth le0)
  then show ?thesis
    unfolding cancelTask_def cancel_fold_queue by simp
qed

lemma cancelTask_keys: "keys (cancelTask n ty m) = keys m"
  unfolding keys_def
  by (rule nth_equalityI) (simp_all add: task_key_def cancelTask_nth)

lemma cancelTask_names: "names_ok m \<Longrightarrow> names_ok (cancelTask n ty m)"
  by (rule names_ok_cong [where m = m]) (simp_all add: cancelTask_keys)

lemma cancelTask_silent:
  assumes "silent N D m"
  shows "silent N D (cancelTask n ty m)"
proof (rule silent_frame [OF assms cancelTask_names [OF silent_names [OF assms]]])
  fix t' assume "t' \<in> set (tasks (cancelTask n ty m))"
  then obtain j where j: "j < length (tasks m)" "t' = tasks (cancelTask n ty m) ! j"
    by (auto simp: in_set_conv_nth)
  then have "tasks m ! j \<in> set (tasks m)" by simp
  then show "\<exists>t \<in> set (tasks m). bundleName t = bundleName t' \<and> type t = type t'
               \<and> (canceled t \<longrightarrow> canceled t')"
    using j(2) by (auto simp: cancelTask_nth)
next
  show "set (eventQueue (cancelTask n ty m)) \<subseteq> set (eventQueue m)"
    by (auto simp: cancelTask_queue)
next
  show "delivered (cancelTask n ty m) = delivered m" by simp
qed

lemma cancelTask_establish:
  assumes n: "names_ok m"
    and ex: "\<exists>t \<in> set (tasks m). bundleName t = n \<and> type t = TASK_TYPE_LOAD"
  shows "silent {n} (filter (\<lambda>e. name e = Some n) (delivered m))
           (cancelTask n TASK_TYPE_LOAD m)"
proof (rule silentI [OF cancelTask_names [OF n]])
  fix t assume t: "t \<in> set (tasks (cancelTask n TASK_TYPE_LOAD m))" "bundleName t \<in> {n}"
    "type t = TASK_TYPE_LOAD"
  from t(1) obtain j where j: "j < length (tasks m)"
      "t = tasks (cancelTask n TASK_TYPE_LOAD m) ! j"
    by (auto simp: in_set_conv_nth)
  show "canceled t" using t(2,3) j by (simp add: cancelTask_nth)
next
  fix e assume "e \<in> set (eventQueue (cancelTask n TASK_TYPE_LOAD m))"
  then show "name e \<notin> Some ` {n}" using ex by (auto simp: cancelTask_queue)
next
  show "filter (\<lambda>e. name e \<in> Some ` {n}) (delivered (cancelTask n TASK_TYPE_LOAD m))
          = filter (\<lambda>e. name e = Some n) (delivered m)"
    by simp
qed

lemma names_ok_append:
  assumes "names_ok m"
  shows "names_ok (m\<lparr>tasks := tasks m @ ts\<rparr>)"
proof (cases "running m")
  case None
  then show ?thesis using assms by (simp add: names_ok_idle nm_def)
next
  case (Some c)
  have r: "running (m\<lparr>tasks := tasks m @ ts\<rparr>) = Some c" using Some by simp
  show ?thesis
    using assms unfolding names_ok_waiting [OF r] names_ok_waiting [OF Some]
    by (auto simp: nm_def nth_append)
qed

lemma maybeAddTask_silent:
  assumes s: "silent N D m" and ok: "ty = TASK_TYPE_LOAD \<Longrightarrow> bName \<notin> N"
  shows "silent N D (maybeAddTask bName ty ex m)"
proof -
  let ?m1 = "m\<lparr>tasks := tasks m @ [Task bName ty ex]\<rparr>"
  have "silent N D ?m1"
  proof (rule silentI [OF names_ok_append [OF silent_names [OF s]]])
    fix t assume "t \<in> set (tasks ?m1)" "bundleName t \<in> N" "type t = TASK_TYPE_LOAD"
    then show "canceled t" using silent_tasks [OF s, of t] ok by (auto simp: Task_def)
  next
    fix e assume "e \<in> set (eventQueue ?m1)"
    then show "name e \<notin> Some ` N" using silent_queue [OF s, of e] by simp
  next
    show "filter (\<lambda>e. name e \<in> Some ` N) (delivered ?m1) = D"
      using silent_delivered [OF s] by simp
  qed
  then have "silent N D (doTasks ?m1)" by (rule doTasks_silent)
  then show ?thesis using s by (simp add: maybeAddTask_def)
qed

lemma kickStartTasks_silent:
  assumes s: "silent N D m"
  shows "silent N D (kickStartTasks m)"
proof -
  let ?m1 = "m\<lparr>tasks := map rearm (tasks m)\<rparr>"
  have k: "keys ?m1 = keys m" by (simp add: keys_def task_key_def rearm_def)
  have n: "names_ok ?m1"
    by (rule names_ok_cong [OF silent_names [OF s]]) (simp_all add: k nm_def)
  have "silent N D ?m1"
  proof (rule silent_frame [OF s n])
    fix t' assume "t' \<in> set (tasks ?m1)"
    then obtain t where "t \<in> set (tasks m)" "t' = rearm t" by auto
    then show "\<exists>t \<in> set (tasks m). bundleName t = bundleName t' \<and> type t = type t'
                 \<and> (canceled t \<longrightarrow> canceled t')"
      by (auto simp: rearm_def intro!: bexI [of _ t])
  qed simp_all
  then show ?thesis unfolding kickStartTasks_def by (rule doTasks_silent)
qed

lemma flushEvents_silent:
  assumes s: "silent N D m"
  shows "silent N D (flushEvents m)"
proof (rule silentI)
  show "names_ok (flushEvents m)"
    by (rule names_ok_cong [OF silent_names [OF s]]) (simp_all add: keys_def nm_def)
next
  fix t assume "t \<in> set (tasks (flushEvents m))" "bundleName t \<in> N" "type t = TASK_TYPE_LOAD"
  then show "canceled t" using silent_tasks [OF s, of t] by simp
next
  fix e assume "e \<in> set (eventQueue (flushEvents m))"
  then show "name e \<notin> Some ` N"
    using silent_queue [OF s, of e] by (auto simp: flushEvents_def split: if_splits)
next
  have "filter (\<lambda>e. name e \<in> Some ` N) (eventQueue m) = []"
    using silent_queue [OF s] by (auto simp: filter_empty_conv)
  then show "filter (\<lambda>e. name e \<in> Some ` N) (delivered (flushEvents m)) = D"
    using silent_delivered [OF s] by (simp add: flushEvents_def)
qed

lemma nm_setprop: "p \<noteq> ''name'' \<Longrightarrow> nm (heap (setprop c p v m)) a = nm (heap m) a"
  by (auto simp: nm_def setprop_def getprop_def update_conv' split: option.splits jsobj.splits)

lemma nm_write: "x \<noteq> a \<Longrightarrow> nm (h(a \<mapsto> ob)) x = nm h x"
  by (simp add: nm_def getprop_def)

lemma nm_new:
  "nm (h(a \<mapsto> JObject ps)) a = (case map_of ps ''name'' of Some x \<Rightarrow> x | None \<Rightarrow> JUndefined)"
  by (simp add: nm_def getprop_def)

lemma alloc_names: "names_ok m \<Longrightarrow> names_ok (snd (alloc ob m))"
  by (rule names_ok_mono [where m = m]) (simp_all add: keys_def nm_write)

lemma nm_heap: "h' a = h a \<Longrightarrow> nm h' a = nm h a"
  by (simp add: nm_def getprop_def)

lemma copyBundle_hnext: "hnext m \<le> hnext (snd (copyBundle b m))"
  using copyBundle_frame [of m b] by (simp add: frame_def)

lemma copyBundle_old:
  "a < hnext m \<Longrightarrow> nm (heap (snd (copyBundle b m))) a = nm (heap m) a"
  using copyBundle_frame [of m b] by (intro nm_heap) (simp add: frame_def)

lemma copyBundle_new:
  assumes "fst (copyBundle b m) = Inr c"
  shows "c < hnext (snd (copyBundle b m))
         \<and> nm (heap (snd (copyBundle b m))) c = getprop (heap m) b ''name''"
proof -
  have "copyBundle b m = (Inr c, snd (copyBundle b m))" using assms by (cases "copyBundle b m") simp
  from copyBundle_Inr [OF this] show ?thesis by (auto simp: nm_def getprop_def)
qed

lemma silent_heap:
  assumes s: "silent N D m" and n: "names_ok m'" and "tasks m' = tasks m"
    and "eventQueue m' = eventQueue m" and "delivered m' = delivered m"
  shows "silent N D m'"
  using assms(3-5) by (intro silent_frame [OF s n]) auto

lemma alloc_silent: "silent N D m \<Longrightarrow> silent N D (snd (alloc ob m))"
  by (rule silent_heap [where m = m]) (simp_all add: alloc_names silent_names)

lemma copyBundle_names: "names_ok m \<Longrightarrow> names_ok (snd (copyBundle b m))"
  by (rule names_ok_mono [where m = m]) (simp_all add: keys_def copyBundle_hnext copyBundle_old)

lemma copyBundle_silent: "silent N D m \<Longrightarrow> silent N D (snd (copyBundle b m))"
  by (rule silent_heap [where m = m]) (simp_all add: copyBundle_names silent_names)

lemma held_bundles: "(k, a) \<in> set (bundles m) \<Longrightarrow> a \<in> set (internal m)"
proof -
  assume "(k, a) \<in> set (bundles m)"
  then have "a \<in> snd ` set (bundles m)" by force
  then show ?thesis by (simp add: internal_def held_records_def)
qed

lemma held_running: "running m = Some c \<Longrightarrow> cont_bundle c \<in> set (internal m)"
  by (simp add: internal_def held_records_def)

lemma write_names:
  assumes n: "names_ok m" and a: "a \<notin> set (internal m)"
  shows "names_ok (m\<lparr>heap := (heap m)(a \<mapsto> ob)\<rparr>)"
proof -
  let ?m' = "m\<lparr>heap := (heap m)(a \<mapsto> ob)\<rparr>"
  have n1: "\<forall>(k, x) \<in> set (bundles ?m'). x < hnext ?m' \<and> nm (heap ?m') x = JStr k"
  proof clarify
    fix k x assume kx: "(k, x) \<in> set (bundles ?m')"
    then have "x \<noteq> a" using held_bundles [of k x m] a by auto
    then show "x < hnext ?m' \<and> nm (heap ?m') x = JStr k"
      using names_ok_bundles [OF n, of k x] kx by (simp add: nm_write)
  qed
  show ?thesis
  proof (cases "running m")
    case None
    then show ?thesis using n1 by (simp add: names_ok_idle)
  next
    case (Some c)
    have r: "running ?m' = Some c" using Some by simp
    have "cont_bundle c \<noteq> a" using held_running [OF Some] a by auto
    then show ?thesis
      using n n1 unfolding names_ok_waiting [OF r] names_ok_waiting [OF Some]
      by (simp add: nm_write)
  qed
qed

lemma set_update_subset: "set (AList.update k v al) \<subseteq> insert (k, v) (set al)"
  by (induction al) auto

lemma set_delete_subset: "set (AList.delete k al) \<subseteq> set al"
  by (induction al) auto

lemma register_names:
  assumes n: "names_ok m" and c: "c < hnext m" "nm (heap m) c = JStr k"
  shows "names_ok (persist ((setprop c ''loaded'' v m)
                      \<lparr>bundles := AList.update k c (bundles (setprop c ''loaded'' v m))\<rparr>))"
    (is "names_ok ?m'")
proof -
  have n1: "\<forall>(k', x) \<in> set (bundles ?m'). x < hnext ?m' \<and> nm (heap ?m') x = JStr k'"
  proof clarify
    fix k' x assume "(k', x) \<in> set (bundles ?m')"
    then have "(k', x) = (k, c) \<or> (k', x) \<in> set (bundles m)"
      using set_update_subset [of k c "bundles m"] by auto
    then show "x < hnext ?m' \<and> nm (heap ?m') x = JStr k'"
      using c names_ok_bundles [OF n, of k' x] by auto
  qed
  show ?thesis
  proof (cases "running m")
    case None
    then show ?thesis using n1 by (simp add: names_ok_idle)
  next
    case (Some r)
    have r: "running ?m' = Some r" using Some by simp
    show ?thesis
      using n n1 unfolding names_ok_waiting [OF r] names_ok_waiting [OF Some]
      by simp
  qed
qed

lemma addBundle_silent:
  assumes s: "silent N D m" and ok: "\<forall>k \<in> N. getprop (heap m) b ''name'' \<noteq> JStr k"
  shows "silent N D (snd (addBundle b m))"
proof (cases "malformedBundle (heap m) b")
  case (Inl e)
  then show ?thesis using s by (simp add: addBundle_def)
next
  case (Inr x)
  show ?thesis
  proof (cases x)
    case True
    then show ?thesis using s Inr by (simp add: addBundle_def)
  next
    case False
    show ?thesis
    proof (cases "\<exists>k. getprop (heap m) b ''name'' = JStr k")
      case no: False
      then show ?thesis using s Inr False
        by (cases "getprop (heap m) b ''name''") (simp_all add: addBundle_def)
    next
      case True
      then obtain k where k: "getprop (heap m) b ''name'' = JStr k" by blast
      then have kN: "k \<notin> N" using ok by auto
      show ?thesis
      proof (cases "hasOwnProperty (bundles m) k")
        case True
        then show ?thesis using s Inr False k by (simp add: addBundle_def)
      next
        case nh: False
        obtain r m1 where cb: "copyBundle b m = (r, m1)" by (cases "copyBundle b m")
        have s1: "silent N D m1" using copyBundle_silent [OF s, of b] cb by simp
        show ?thesis
        proof (cases r)
          case (Inl e)
          then show ?thesis using s1 Inr False k nh cb by (simp add: addBundle_def)
        next
          case cr: (Inr c)
          let ?m2 = "setprop c ''loaded'' (JBool False) m1"
          let ?m4 = "persist (?m2\<lparr>bundles := AList.update k c (bundles ?m2)\<rparr>)"
          have c: "c < hnext m1" "nm (heap m1) c = JStr k"
            using copyBundle_new [of b m c] cb cr k by simp_all
          have n4: "names_ok ?m4" by (rule register_names [OF silent_names [OF s1] c])
          have s4: "silent N D ?m4" by (rule silent_heap [OF s1 n4]) simp_all
          have "silent N D (maybeAddTask k TASK_TYPE_LOAD None (cancelTask k TASK_TYPE_REMOVE ?m4))"
            by (rule maybeAddTask_silent [OF cancelTask_silent [OF s4]]) (rule kN)
          then show ?thesis using Inr False k nh cb cr by (simp add: addBundle_def Let_def)
        qed
      qed
    qed
  qed
qed

lemma unregister_names:
  "names_ok m \<Longrightarrow> names_ok (persist (m\<lparr>bundles := AList.delete k (bundles m)\<rparr>))"
  by (rule names_ok_mono [where m = m]) (simp_all add: keys_def nm_def set_delete_subset)

lemma removeBundle_silent:
  assumes s: "silent N D m"
  shows "silent N D (removeBundle k m)"
proof (cases "map_of (bundles m) k")
  case None
  then show ?thesis using s by (simp add: removeBundle_def)
next
  case (Some rb)
  let ?m2 = "persist (m\<lparr>bundles := AList.delete k (bundles m)\<rparr>)"
  have s2: "silent N D ?m2"
    by (rule silent_heap [OF s unregister_names [OF silent_names [OF s]]]) simp_all
  have "silent N D (maybeAddTask k TASK_TYPE_REMOVE (Some rb) (cancelTask k TASK_TYPE_LOAD ?m2))"
    by (rule maybeAddTask_silent [OF cancelTask_silent [OF s2]]) simp
  then show ?thesis using Some by (simp add: removeBundle_def Let_def)
qed

lemma removeBundle_establish:
  assumes n: "names_ok m" and ex: "\<exists>t \<in> set (tasks m). bundleName t = k \<and> type t = TASK_TYPE_LOAD"
    and reg: "bundleAdded m k"
  shows "silent {k} (filter (\<lambda>e. name e = Some k) (delivered m)) (removeBundle k m)"
proof -
  from reg obtain rb where rb: "map_of (bundles m) k = Some rb"
    by (auto simp: bundleAdded_def hasOwnProperty_def)
  let ?m2 = "persist (m\<lparr>bundles := AList.delete k (bundles m)\<rparr>)"
  have "silent {k} (filter (\<lambda>e. name e = Some k) (delivered ?m2)) (cancelTask k TASK_TYPE_LOAD ?m2)"
    by (rule cancelTask_establish [OF unregister_names [OF n]]) (use ex in simp)
  then have "silent {k} (filter (\<lambda>e. name e = Some k) (delivered m))
               (maybeAddTask k TASK_TYPE_REMOVE (Some rb) (cancelTask k TASK_TYPE_LOAD ?m2))"
    by (intro maybeAddTask_silent) simp_all
  then show ?thesis using rb by (simp add: removeBundle_def Let_def)
qed

lemma getBundle_silent:
  assumes s: "silent N D m"
  shows "silent N D (snd (getBundle k m))"
proof (cases "map_of (bundles m) k")
  case None
  then show ?thesis using s by (simp add: getBundle_def)
next
  case (Some b)
  obtain r m1 where cb: "copyBundle (JRef b) m = (r, m1)" by (cases "copyBundle (JRef b) m")
  have "silent N D m1" using copyBundle_silent [OF s, of "JRef b"] cb by simp
  then show ?thesis using Some cb by (cases r) (simp_all add: getBundle_def)
qed

lemma step_silent:
  assumes s: "silent N D m"
    and ok: "\<And>b. inp = AddBundle b \<Longrightarrow> \<forall>k \<in> N. getprop (heap m) b ''name'' \<noteq> JStr k"
  shows "silent N D (step inp m)"
proof -
  have cb: "silent N D (case running m of Some c \<Rightarrow> callback x c m | None \<Rightarrow> m)" for x
    using s callback_silent [OF s] by (cases "running m") simp_all
  show ?thesis
  proof (cases inp)
    case (AddBundle b)
    then show ?thesis using addBundle_silent [OF s ok] by (simp add: step_def)
  next
    case (RemoveBundle k)
    then show ?thesis using removeBundle_silent [OF s] by (simp add: step_def)
  next
    case (GetBundle k)
    then show ?thesis using getBundle_silent [OF s] by (simp add: step_def)
  next
    case (ClientNew ob)
    then show ?thesis using alloc_silent [OF s] by (simp add: step_def)
  next
    case (ClientWrite a ob)
    have "silent N D (m\<lparr>heap := (heap m)(a \<mapsto> ob)\<rparr>)" if "a \<notin> set (internal m)"
      by (rule silent_heap [OF s write_names [OF silent_names [OF s] that]]) simp_all
    then show ?thesis using ClientWrite s by (simp add: step_def)
  next
    case EventTimer
    then show ?thesis using flushEvents_silent [OF s] by (simp add: step_def)
  next
    case RetryTimer
    then show ?thesis using kickStartTasks_silent [OF s] by (simp add: step_def)
  qed (use cb in \<open>simp_all add: step_def\<close>)
qed

lemma run_silent:
  "silent {n} D m \<Longrightarrow> no_readd n inps m \<Longrightarrow> silent {n} D (run inps m)"
proof (induction inps arbitrary: m)
  case Nil
  then show ?case by (simp add: run_def)
next
  case (Cons inp inps)
  have "silent {n} D (step inp m)"
    using Cons.prems by (intro step_silent) auto
  then have "silent {n} D (run inps (step inp m))"
    using Cons.prems by (intro Cons.IH) simp_all
  then show ?case by (simp add: run_def)
qed

lemma names_ok_silent: "names_ok m \<longleftrightarrow> silent {} [] m"
  by (simp add: silent_def)

lemma run_names: "names_ok m \<Longrightarrow> names_ok (run inps m)"
proof (induction inps arbitrary: m)
  case Nil
  then show ?case by (simp add: run_def)
next
  case (Cons inp inps)
  have "names_ok (step inp m)"
    using Cons.prems unfolding names_ok_silent by (intro step_silent) simp_all
  then show ?case using Cons.IH by (simp add: run_def)
qed

lemma DAM_names: "names_ok DAM"
  by (simp add: names_ok_def DAM_def)

text \<open>The body itself sends the loading event before it looks at the flag; the drain loop
  never starts a canceled task, since it strips the list first.\<close>

lemma downloadBundle_canceled_loading:
  assumes "canceled (tasks m ! i)" and "map_of (bundles m) (bundleName (tasks m ! i)) = Some b"
    and "bundle_view (heap m) b = Some v"
  shows "eventQueue (snd (downloadBundle i m))
           = eventQueue m @ [bundle_event BUNDLE_EVENT_LOADING (b_name v)]"
  using assms
  by (simp add: downloadBundle_def downloadBundle_loop_def downloadBundle_error_def Let_def
        sendEvent_def upd_task_def)

text \<open>
  C7.  Let a manager be in any state it can reach by an ordinary run (no bundle was added
  under a reserved key or with a reserved key among its files), with the bundle \<open>n\<close>
  registered and a Load task of \<open>n\<close> in the task list (queued behind another task, or
  running).  \<open>removeBundle n\<close> cancels that task.  From then on, whatever the collaborators
  answer and whatever the client does in an ordinary run, short of adding a bundle named \<open>n\<close>
  again, no event named \<open>n\<close> reaches the listeners:
  the events named \<open>n\<close> that have been delivered are those delivered before the removal, and
  none is left in the queue.  For a task that was still queued these are no events at all.
\<close>

theorem canceled_load_is_silent:
  assumes "m = run pre DAM"
    and "bundleAdded m n"
    and "(n, TASK_TYPE_LOAD) \<in> set (map task_key (tasks m))"
    and "no_readd n post (removeBundle n m)"
    and "ordinary pre DAM"
    and "ordinary post (removeBundle n m)"
  shows "filter (\<lambda>e. name e = Some n) (delivered (run post (removeBundle n m)))
           = filter (\<lambda>e. name e = Some n) (delivered m)
         \<and> filter (\<lambda>e. name e = Some n) (eventQueue (run post (removeBundle n m))) = []"
proof -
  have n: "names_ok m" unfolding assms(1) by (rule run_names [OF DAM_names])
  have ex: "\<exists>t \<in> set (tasks m). bundleName t = n \<and> type t = TASK_TYPE_LOAD"
    using assms(3) by (auto simp: task_key_def)
  from removeBundle_establish [OF n ex assms(2)]
  have s: "silent {n} (filter (\<lambda>e. name e = Some n) (delivered m))
             (run post (removeBundle n m))"
    using assms(4) by (rule run_silent)
  have "filter (\<lambda>e. name e = Some n) (eventQueue (run post (removeBundle n m))) = []"
    using silent_queue [OF s] by (auto simp: filter_empty_conv)
  then show ?thesis using silent_delivered [OF s] by simp
qed

theorem canceled_load_is_silent_witness:
  "bundleAdded (run pending_inputs DAM) ''b2''
   \<and> map task_key (tasks (run pending_inputs DAM))
       = [(''b1'', TASK_TYPE_LOAD), (''b2'', TASK_TYPE_LOAD)]
   \<and> running (run pending_inputs DAM) = Some (DlProbe d0 0 ''http://x/f1.png'')
   \<and> no_readd ''b2'' after_cancel_inputs (removeBundle ''b2'' (run pending_inputs DAM))
   \<and> ordinary pending_inputs DAM
   \<and> ordinary after_cancel_inputs (removeBundle ''b2'' (run pending_inputs DAM))
   \<and> filter (\<lambda>e. name e = Some ''b2'')
        (delivered (run after_cancel_inputs (removeBundle ''b2'' (run pending_inputs DAM))))
       = []
   \<and> filter (\<lambda>e. name e = Some ''b2'')
        (eventQueue (run after_cancel_inputs (removeBundle ''b2'' (run pending_inputs DAM))))
       = []
   \<and> map event
        (delivered (run after_cancel_inputs (removeBundle ''b2'' (run pending_inputs DAM))))
       = [GLOBAL_EVENT_BUSY, BUNDLE_EVENT_LOADING, BUNDLE_EVENT_PROGRESS, BUNDLE_EVENT_LOADED,
          GLOBAL_EVENT_NOTBUSY]"
proof -
  let ?m = "run pending_inputs DAM"
  have h1: "bundleAdded ?m ''b2''"
    by (simp add: bundleAdded_def pending_inputs_def b1_inputs_def eval_defs)
  have h2: "map task_key (tasks ?m) = [(''b1'', TASK_TYPE_LOAD), (''b2'', TASK_TYPE_LOAD)]"
    by (simp add: task_key_def pending_inputs_def b1_inputs_def eval_defs)
  have h2': "(''b2'', TASK_TYPE_LOAD) \<in> set (map task_key (tasks ?m))"
    unfolding h2 by simp
  have h3: "running ?m = Some (DlProbe d0 0 ''http://x/f1.png'')"
    by (simp add: d0_def pending_inputs_def b1_inputs_def eval_defs)
  have h4: "no_readd ''b2'' after_cancel_inputs (removeBundle ''b2'' ?m)"
    by (simp add: after_cancel_inputs_def file1_def pending_inputs_def b1_inputs_def eval_defs)
  have h5: "ordinary pending_inputs DAM"
    by (simp add: plain_bundle_def reserved_def pending_inputs_def b1_inputs_def eval_defs)
  have h6: "ordinary after_cancel_inputs (removeBundle ''b2'' ?m)"
    by (simp add: after_cancel_inputs_def file1_def)
  have d: "delivered ?m = []"
    by (simp add: pending_inputs_def b1_inputs_def eval_defs)
  have e: "map event (delivered (run after_cancel_inputs (removeBundle ''b2'' ?m)))
       = [GLOBAL_EVENT_BUSY, BUNDLE_EVENT_LOADING, BUNDLE_EVENT_PROGRESS, BUNDLE_EVENT_LOADED,
          GLOBAL_EVENT_NOTBUSY]"
    by (simp add: after_cancel_inputs_def file1_def pending_inputs_def b1_inputs_def eval_defs)
  from canceled_load_is_silent [OF refl h1 h2' h4 h5 h6] d
  have "filter (\<lambda>e. name e = Some ''b2'')
          (delivered (run after_cancel_inputs (removeBundle ''b2'' ?m))) = []"
    and "filter (\<lambda>e. name e = Some ''b2'')
          (eventQueue (run after_cancel_inputs (removeBundle ''b2'' ?m))) = []"
    by simp_all
  with h1 h2 h3 h4 h5 h6 e show ?thesis by blast
qed

section \<open>Progress of a load\<close>









lemma fractions_purged [simp]: "fractions n (filter (\<lambda>e. name e \<noteq> Some n) q) = []"
  by (induction q) (simp_all add: fractions_def List.map_filter_def)


lemma fracs_ok_Nil [simp]: "fracs_ok u []"
  by (simp add: fracs_ok_def)




lemma upd_task_fields [simp]:
  "bundleName (tasks (upd_task j (\<lambda>t. t\<lparr>failed := y, error := z, retry := w\<rparr>) m) ! i)
     = bundleName (tasks m ! i)"
  "bundleName (tasks (upd_task j (\<lambda>t. t\<lparr>ft := x\<rparr>) m) ! i) = bundleName (tasks m ! i)"
  "length (tasks (upd_task j f m)) = length (tasks m)"
  by (cases "j < length (tasks m)";
      simp add: upd_task_def nth_list_update list_update_beyond)+













































end
